theory Spec2Isabelle
  imports Complex_Main "HOL-Library.Sublist"
begin

section \<open>Numbers, colours and errors\<close>

text \<open>
  The dashboard of \<^verbatim>\<open>src/app/page.js\<close> computes with JavaScript numbers. Every finite
  JavaScript number is a rational, so numbers are modelled as \<^typ>\<open>rat\<close>; \<^verbatim>\<open>NaN\<close> and the
  infinities are outside this type. The colour scales and the metric range are studied
  with exact arithmetic. The vertices of a cell are compared with the half-width itself,
  where the last bit decides, so the constants and the sums and differences that make them
  are rounded as binary64 rounds them. A value that may be \<^verbatim>\<open>null\<close> or \<^verbatim>\<open>undefined\<close> is an
  \<^typ>\<open>rat option\<close>. A colour is the array of its channels, which \<^verbatim>\<open>Math.round\<close> makes
  integers.
\<close>

type_synonym rgb = "int \<times> int \<times> int"
type_synonym rgba = "int \<times> int \<times> int \<times> int"

datatype error = TypeError

text \<open>\<^verbatim>\<open>Math.round\<close> rounds to the nearest integer, a tie going up.\<close>

definition Math_round :: "rat \<Rightarrow> int" where
  "Math_round x = \<lfloor>x + 1 / 2\<rfloor>"

text \<open>\<^verbatim>\<open>Math.abs\<close>, used by the accessor of the precipitation change.\<close>

definition Math_abs :: "rat \<Rightarrow> rat" where
  "Math_abs x = \<bar>x\<bar>"

section \<open>Colour scales\<close>

fun lerp :: "rgb \<Rightarrow> rgb \<Rightarrow> rat \<Rightarrow> rgb" where
  "lerp (a0, a1, a2) (b0, b1, b2) t =
     (Math_round (of_int a0 + (of_int b0 - of_int a0) * t),
      Math_round (of_int a1 + (of_int b1 - of_int a1) * t),
      Math_round (of_int a2 + (of_int b2 - of_int a2) * t))"

text \<open>
  A gradient stop \<^verbatim>\<open>{ at, color }\<close>. The field \<^verbatim>\<open>at\<close> is written \<open>at'\<close>, the plain
  name being a constant of the library.
\<close>

record stop =
  at' :: rat
  color :: rgb

text \<open>
  The \<^verbatim>\<open>for\<close> loop of \<^verbatim>\<open>multiStopColor\<close>, started at index \<open>i\<close>, together with the
  \<^verbatim>\<open>return\<close> that follows it.
\<close>

function stop_loop :: "rat \<Rightarrow> stop list \<Rightarrow> nat \<Rightarrow> rgb" where
  "stop_loop ratio stops i =
     (if i < length stops - 1 then
        (if ratio \<le> at' (stops ! (i + 1)) then
           (let t = (ratio - at' (stops ! i)) / (at' (stops ! (i + 1)) - at' (stops ! i))
            in lerp (color (stops ! i)) (color (stops ! (i + 1))) t)
         else stop_loop ratio stops (i + 1))
      else color (stops ! (length stops - 1)))"
  by pat_completeness auto
termination
  by (relation "measure (\<lambda>(ratio, stops, i). length stops - i)") auto

declare stop_loop.simps [simp del]

text \<open>
  \<^verbatim>\<open>multiStopColor(ratio, stops)\<close>. On an empty table \<^verbatim>\<open>stops[0]\<close> is undefined and
  reading its \<^verbatim>\<open>at\<close> throws.
\<close>

definition multiStopColor :: "rat \<Rightarrow> stop list \<Rightarrow> error + rgb" where
  "multiStopColor ratio stops =
     (if stops = [] then Inl TypeError
      else if ratio \<le> at' (stops ! 0) then Inr (color (stops ! 0))
      else if ratio \<ge> at' (stops ! (length stops - 1)) then Inr (color (stops ! (length stops - 1)))
      else Inr (stop_loop ratio stops 0))"

definition TEMP_STOPS :: "stop list" where
  "TEMP_STOPS =
     [\<lparr>at' = 0, color = (33, 102, 172)\<rparr>,
      \<lparr>at' = 1 / 2, color = (255, 255, 255)\<rparr>,
      \<lparr>at' = 1, color = (178, 24, 43)\<rparr>]"

definition PRECIP_STOPS :: "stop list" where
  "PRECIP_STOPS =
     [\<lparr>at' = 0, color = (255, 255, 204)\<rparr>,
      \<lparr>at' = 4 / 10, color = (65, 182, 196)\<rparr>,
      \<lparr>at' = 1, color = (12, 44, 132)\<rparr>]"

definition SUN_STOPS :: "stop list" where
  "SUN_STOPS =
     [\<lparr>at' = 0, color = (74, 20, 134)\<rparr>,
      \<lparr>at' = 2 / 10, color = (43, 140, 190)\<rparr>,
      \<lparr>at' = 4 / 10, color = (166, 217, 237)\<rparr>,
      \<lparr>at' = 6 / 10, color = (254, 227, 145)\<rparr>,
      \<lparr>at' = 8 / 10, color = (244, 109, 67)\<rparr>,
      \<lparr>at' = 1, color = (255, 204, 0)\<rparr>]"

text \<open>The keys of \<^verbatim>\<open>VARIABLES\<close> and \<^verbatim>\<open>STOP_MAP\<close>.\<close>

datatype variable = temperature | precipitation | sunshine

fun STOP_MAP :: "variable \<Rightarrow> stop list" where
  "STOP_MAP temperature = TEMP_STOPS"
| "STOP_MAP precipitation = PRECIP_STOPS"
| "STOP_MAP sunshine = SUN_STOPS"

fun fixedMin :: "variable \<Rightarrow> rat" where
  "fixedMin temperature = - 15"
| "fixedMin precipitation = 0"
| "fixedMin sunshine = 0"

fun fixedMax :: "variable \<Rightarrow> rat" where
  "fixedMax temperature = 35"
| "fixedMax precipitation = 200"
| "fixedMax sunshine = 14"

text \<open>
  \<^verbatim>\<open>getColor(variable, value, min, max)\<close>; the destructuring of the colour passes a
  throw of \<^verbatim>\<open>multiStopColor\<close> on.
\<close>

definition getColor :: "variable \<Rightarrow> rat \<Rightarrow> rat \<Rightarrow> rat \<Rightarrow> error + rgba" where
  "getColor variable value mn mx =
     (let range = mx - mn;
          ratio = (if range = 0 then 1 / 2 else max 0 (min 1 ((value - mn) / range)))
      in case multiStopColor ratio (STOP_MAP variable) of
           Inl e \<Rightarrow> Inl e
         | Inr (r, g, b) \<Rightarrow> Inr (r, g, b, 179))"

definition GREEN_RED_STOPS :: "stop list" where
  "GREEN_RED_STOPS =
     [\<lparr>at' = 0, color = (34, 139, 34)\<rparr>,
      \<lparr>at' = 1 / 2, color = (255, 200, 0)\<rparr>,
      \<lparr>at' = 1, color = (200, 30, 30)\<rparr>]"

text \<open>
  \<^verbatim>\<open>bubbleColor(value, min, max, invert)\<close>; \<^verbatim>\<open>value == null\<close> holds of \<^verbatim>\<open>null\<close> and of
  \<^verbatim>\<open>undefined\<close>, both \<open>None\<close> here.
\<close>

definition bubbleColor :: "rat option \<Rightarrow> rat \<Rightarrow> rat \<Rightarrow> bool \<Rightarrow> error + rgba" where
  "bubbleColor value mn mx invert =
     (case value of
        None \<Rightarrow> Inr (160, 160, 160, 220)
      | Some v \<Rightarrow>
          (let range = mx - mn;
               ratio = (if range = 0 then 1 / 2 else max 0 (min 1 ((v - mn) / range)));
               ratio = (if invert then 1 - ratio else ratio)
           in case multiStopColor ratio GREEN_RED_STOPS of
                Inl e \<Rightarrow> Inl e
              | Inr (r, g, b) \<Rightarrow> Inr (r, g, b, 220)))"

text \<open>
  The normalised ratio that \<^verbatim>\<open>getColor\<close> and \<^verbatim>\<open>bubbleColor\<close> both compute before the
  lookup, named to state properties of it.
\<close>

definition clamped_ratio :: "rat \<Rightarrow> rat \<Rightarrow> rat \<Rightarrow> rat" where
  "clamped_ratio value mn mx =
     (if mx - mn = 0 then 1 / 2 else max 0 (min 1 ((value - mn) / (mx - mn))))"

text \<open>
  A channel \<open>c\<close> lies between the channels \<open>a\<close> and \<open>b\<close> of two stops; for integers
  this is to be a convex combination of them.
\<close>

definition channel_between :: "int \<Rightarrow> int \<Rightarrow> int \<Rightarrow> bool" where
  "channel_between a b c \<longleftrightarrow> min a b \<le> c \<and> c \<le> max a b"

fun convex_rgb :: "rgb \<Rightarrow> rgb \<Rightarrow> rgb \<Rightarrow> bool" where
  "convex_rgb (a0, a1, a2) (b0, b1, b2) (c0, c1, c2) \<longleftrightarrow>
     channel_between a0 b0 c0 \<and> channel_between a1 b1 c1 \<and> channel_between a2 b2 c2"

fun with_alpha :: "rgb \<Rightarrow> int \<Rightarrow> rgba" where
  "with_alpha (r, g, b) a = (r, g, b, a)"

section \<open>Cell assembly\<close>

subsection \<open>Rounding to binary64\<close>

text \<open>Rounding to the nearest integer, a tie going to the even one.\<close>

definition round_even :: "rat \<Rightarrow> int" where
  "round_even x =
     (let f = \<lfloor>x\<rfloor>; d = x - of_int f
      in if d < 1 / 2 then f else if 1 / 2 < d then f + 1 else if even f then f else f + 1)"

text \<open>
  The spacing of the binary64 numbers around \<open>x\<close>: the power of two \<open>u\<close> with
  \<open>2 ^ 52 * u \<le> \<bar>x\<bar> < 2 ^ 53 * u\<close>, found by halving or doubling from 1. The smallest spacing
  is \<open>2 ^ -1074\<close>, that of the subnormal numbers, and the largest \<open>2 ^ 971\<close>; beyond it
  binary64 has the infinities, which are not modelled.
\<close>

primrec ulp_up :: "nat \<Rightarrow> rat \<Rightarrow> rat \<Rightarrow> rat" where
  "ulp_up 0 x u = u"
| "ulp_up (Suc n) x u = (if 2 ^ 52 * u \<le> x then u else ulp_up n x (u / 2))"

primrec ulp_down :: "nat \<Rightarrow> rat \<Rightarrow> rat \<Rightarrow> rat" where
  "ulp_down 0 x u = u"
| "ulp_down (Suc n) x u = (if x < 2 ^ 53 * u then u else ulp_down n x (u * 2))"

definition ulp :: "rat \<Rightarrow> rat" where
  "ulp x = (if \<bar>x\<bar> < 2 ^ 52 then ulp_up 1074 \<bar>x\<bar> 1 else ulp_down 971 \<bar>x\<bar> 1)"

text \<open>
  The binary64 number nearest to \<open>x\<close>, a tie going to the even significand. It is the
  value of a numeric literal \<open>x\<close>, and the result of \<^verbatim>\<open>a + b\<close>, \<^verbatim>\<open>a - b\<close> and \<^verbatim>\<open>a / b\<close> is
  \<open>binary64\<close> of the exact sum, difference and quotient.
\<close>

definition binary64 :: "rat \<Rightarrow> rat" where
  "binary64 x = (let u = ulp x in of_int (round_even (x / u)) * u)"

subsection \<open>The cells\<close>

text \<open>
  A value read from a grid that \<^verbatim>\<open>res.json()\<close> has parsed: a number, \<^verbatim>\<open>null\<close>, or
  \<^verbatim>\<open>undefined\<close> where a row is read past its end. JSON has no \<^verbatim>\<open>NaN\<close>, so every number is
  finite.
\<close>

datatype jsval = JNull | JUndefined | JNum rat

definition CELL_SIZE :: rat where
  "CELL_SIZE = binary64 (21 / 100)"

definition HALF :: rat where
  "HALF = binary64 (CELL_SIZE / 2)"

text \<open>
  An entry pushed on \<^verbatim>\<open>cells\<close>. Its fields \<^verbatim>\<open>value\<close>, \<^verbatim>\<open>i\<close> and \<^verbatim>\<open>j\<close> are written
  \<open>cell_value\<close>, \<open>cell_i\<close> and \<open>cell_j\<close>. A vertex is the pair of a longitude and a
  latitude.
\<close>

record cell =
  polygon :: "(rat \<times> rat) list"
  cell_value :: jsval
  cell_i :: nat
  cell_j :: nat

text \<open>The inner loop over \<open>j\<close>, for a row \<^verbatim>\<open>grid[i]\<close> that exists; reading past the end of
  the row gives \<^verbatim>\<open>undefined\<close>.\<close>

function cells_inner :: "rat list \<Rightarrow> rat list \<Rightarrow> jsval list \<Rightarrow> nat \<Rightarrow> nat \<Rightarrow> cell list \<Rightarrow> cell list" where
  "cells_inner lats lons row i j cells =
     (if j < length lons then
        (let val = (if j < length row then row ! j else JUndefined) in
         if val = JNull \<or> val = JUndefined then cells_inner lats lons row i (j + 1) cells
         else cells_inner lats lons row i (j + 1)
                (cells @
                 [\<lparr>polygon =
                     [(binary64 (lons ! j - HALF), binary64 (lats ! i - HALF)),
                      (binary64 (lons ! j + HALF), binary64 (lats ! i - HALF)),
                      (binary64 (lons ! j + HALF), binary64 (lats ! i + HALF)),
                      (binary64 (lons ! j - HALF), binary64 (lats ! i + HALF))],
                   cell_value = val, cell_i = i, cell_j = j\<rparr>]))
      else cells)"
  by pat_completeness auto
termination
  by (relation "measure (\<lambda>(lats, lons, row, i, j, cells). length lons - j)") auto

declare cells_inner.simps [simp del]

text \<open>
  The outer loop over \<open>i\<close>. Where the grid has no row \<open>i\<close>, \<^verbatim>\<open>grid[i]\<close> is undefined and
  the first \<^verbatim>\<open>grid[i][j]\<close> throws; with no longitude the inner loop reads nothing.
\<close>

function cells_outer :: "rat list \<Rightarrow> rat list \<Rightarrow> jsval list list \<Rightarrow> nat \<Rightarrow> cell list \<Rightarrow> error + cell list" where
  "cells_outer lats lons grid i cells =
     (if i < length lats then
        (if i < length grid then
           cells_outer lats lons grid (i + 1) (cells_inner lats lons (grid ! i) i 0 cells)
         else if 0 < length lons then Inl TypeError
         else cells_outer lats lons grid (i + 1) cells)
      else Inr cells)"
  by pat_completeness auto
termination
  by (relation "measure (\<lambda>(lats, lons, grid, i, cells). length lats - i)") auto

declare cells_outer.simps [simp del]

text \<open>The list \<^verbatim>\<open>cells\<close> after the two loops (the spec's \<^verbatim>\<open>buildCells\<close>).\<close>

definition buildCells :: "rat list \<Rightarrow> rat list \<Rightarrow> jsval list list \<Rightarrow> error + cell list" where
  "buildCells lats lons grid = cells_outer lats lons grid 0 []"

text \<open>What the loop's test lets through, and the reading of \<^verbatim>\<open>grid[i][j]\<close> in a grid
  that has row \<open>i\<close>.\<close>

definition emitted :: "jsval \<Rightarrow> bool" where
  "emitted val \<longleftrightarrow> \<not> (val = JNull \<or> val = JUndefined)"

definition grid_at :: "jsval list list \<Rightarrow> nat \<Rightarrow> nat \<Rightarrow> jsval" where
  "grid_at grid i j = (if j < length (grid ! i) then grid ! i ! j else JUndefined)"

text \<open>A present value in the spec's words, neither \<^verbatim>\<open>null\<close> nor \<^verbatim>\<open>NaN\<close> nor
  \<^verbatim>\<open>undefined\<close>: of the parsed values, a number.\<close>

fun present :: "jsval \<Rightarrow> bool" where
  "present (JNum x) \<longleftrightarrow> True"
| "present JNull \<longleftrightarrow> False"
| "present JUndefined \<longleftrightarrow> False"

text \<open>The four vertices around a grid point for the half-width \<open>h\<close>, in the order of the
  source and with its rounding.\<close>

definition polygon_around :: "rat \<Rightarrow> rat \<Rightarrow> rat \<Rightarrow> (rat \<times> rat) list" where
  "polygon_around lon lat h =
     [(binary64 (lon - h), binary64 (lat - h)), (binary64 (lon + h), binary64 (lat - h)),
      (binary64 (lon + h), binary64 (lat + h)), (binary64 (lon - h), binary64 (lat + h))]"

text \<open>The cell of the grid position \<open>(i, j)\<close>.\<close>

definition cell_at :: "rat list \<Rightarrow> rat list \<Rightarrow> jsval list list \<Rightarrow> nat \<Rightarrow> nat \<Rightarrow> cell" where
  "cell_at lats lons grid i j =
     \<lparr>polygon = polygon_around (lons ! j) (lats ! i) HALF,
      cell_value = grid_at grid i j, cell_i = i, cell_j = j\<rparr>"

text \<open>
  The cells as the spec describes them: the grid positions in row-major order, those with
  an emitted value kept, each with its polygon, value and indices.
\<close>

definition cells_spec :: "rat list \<Rightarrow> rat list \<Rightarrow> jsval list list \<Rightarrow> cell list" where
  "cells_spec lats lons grid =
     concat (map (\<lambda>i. map (cell_at lats lons grid i)
                          (filter (\<lambda>j. emitted (grid_at grid i j)) [0..<length lons]))
                 [0..<length lats])"

text \<open>The cells of row \<open>i\<close> in that description.\<close>

definition cells_row :: "rat list \<Rightarrow> rat list \<Rightarrow> jsval list list \<Rightarrow> nat \<Rightarrow> cell list" where
  "cells_row lats lons grid i =
     map (cell_at lats lons grid i) (filter (\<lambda>j. emitted (grid_at grid i j)) [0..<length lons])"

section \<open>Metric range\<close>

text \<open>A city record: its identity and the fields the bubble metrics read, each of these
  \<^verbatim>\<open>null\<close> when the payload has no number for it.\<close>

record city_record =
  city :: string
  country :: string
  lat :: rat
  lon :: rat
  resilience_score :: "rat option"
  cost_of_living_index :: "rat option"
  one_bedroom_city_rent :: "rat option"
  delta_temp_c :: "rat option"
  delta_precip_pct :: "rat option"

text \<open>The keys of \<^verbatim>\<open>BUBBLE_METRICS\<close>, with the accessor and the flag of each.\<close>

datatype bubble_metric =
  M_resilience_score | M_cost_of_living_index | M_one_bedroom_city_rent
  | M_delta_temp_c | M_delta_precip_pct

fun getValue :: "bubble_metric \<Rightarrow> city_record \<Rightarrow> rat option" where
  "getValue M_resilience_score d = resilience_score d"
| "getValue M_cost_of_living_index d = cost_of_living_index d"
| "getValue M_one_bedroom_city_rent d = one_bedroom_city_rent d"
| "getValue M_delta_temp_c d = delta_temp_c d"
| "getValue M_delta_precip_pct d =
     (case delta_precip_pct d of Some p \<Rightarrow> Some (Math_abs p) | None \<Rightarrow> None)"

fun invert :: "bubble_metric \<Rightarrow> bool" where
  "invert M_resilience_score = True"
| "invert M_cost_of_living_index = False"
| "invert M_one_bedroom_city_rent = False"
| "invert M_delta_temp_c = False"
| "invert M_delta_precip_pct = False"

text \<open>\<^verbatim>\<open>.filter((v) => v != null)\<close>: the values that are neither \<^verbatim>\<open>null\<close> nor
  \<^verbatim>\<open>undefined\<close>.\<close>

fun filter_present :: "rat option list \<Rightarrow> rat list" where
  "filter_present [] = []"
| "filter_present (None # vs) = filter_present vs"
| "filter_present (Some v # vs) = v # filter_present vs"

text \<open>\<^verbatim>\<open>Math.min\<close> and \<^verbatim>\<open>Math.max\<close> of the arguments \<open>v, vs\<close>. With no argument they are
  the infinities, which the guard \<^verbatim>\<open>vals.length\<close> keeps the effect from computing.\<close>

definition Math_min :: "rat \<Rightarrow> rat list \<Rightarrow> rat" where
  "Math_min v vs = fold min vs v"

definition Math_max :: "rat \<Rightarrow> rat list \<Rightarrow> rat" where
  "Math_max v vs = fold max vs v"

text \<open>The object \<^verbatim>\<open>{ min, max }\<close> of \<^verbatim>\<open>bubbleRange.current\<close>.\<close>

record bubble_range =
  range_min :: rat
  range_max :: rat

definition bubbleRange_init :: bubble_range where
  "bubbleRange_init = \<lparr>range_min = 0, range_max = 1\<rparr>"

text \<open>
  One run of the effect that computes the range: from \<^verbatim>\<open>cities\<close> (\<open>None\<close> before the
  collection has arrived), the selected metric and the current range to the range after.
\<close>

definition bubbleRange_effect :: "city_record list option \<Rightarrow> bubble_metric \<Rightarrow> bubble_range \<Rightarrow> bubble_range" where
  "bubbleRange_effect cities bubbleMetric current =
     (case cities of
        None \<Rightarrow> current
      | Some cs \<Rightarrow>
          (case filter_present (map (getValue bubbleMetric) cs) of
             [] \<Rightarrow> current
           | v # vs \<Rightarrow> \<lparr>range_min = Math_min v vs, range_max = Math_max v vs\<rparr>))"

text \<open>The effect runs once for each change of \<^verbatim>\<open>cities\<close> or of the metric.\<close>

fun bubbleRange_runs :: "(city_record list option \<times> bubble_metric) list \<Rightarrow> bubble_range \<Rightarrow> bubble_range" where
  "bubbleRange_runs [] current = current"
| "bubbleRange_runs ((cities, bubbleMetric) # rest) current =
     bubbleRange_runs rest (bubbleRange_effect cities bubbleMetric current)"

text \<open>Three city records to try the effect on: the precipitation change is -12 for the
  first, missing for the second and 5 for the third.\<close>

definition example_city :: "string \<Rightarrow> rat option \<Rightarrow> city_record" where
  "example_city name precip =
     \<lparr>city = name, country = ''X'', lat = 50, lon = 10, resilience_score = None,
      cost_of_living_index = None, one_bedroom_city_rent = None, delta_temp_c = None,
      delta_precip_pct = precip\<rparr>"

definition example_cities :: "city_record list" where
  "example_cities =
     [example_city ''A'' (Some (- 12)), example_city ''B'' None, example_city ''C'' (Some 5)]"

section \<open>Dataset cache\<close>

definition MONTH_KEYS :: "string list" where
  "MONTH_KEYS =
     [''jan'', ''feb'', ''mar'', ''apr'', ''may'', ''jun'',
      ''jul'', ''aug'', ''sep'', ''oct'', ''nov'', ''dec'']"

text \<open>\<^verbatim>\<open>MONTH_KEYS[monthIdx]\<close> as it is used for a key: past the end of the array it is
  \<^verbatim>\<open>undefined\<close>, which as a property name and in the URL reads \<^verbatim>\<open>"undefined"\<close>.\<close>

definition month_key :: "nat \<Rightarrow> string" where
  "month_key monthIdx = (if monthIdx < length MONTH_KEYS then MONTH_KEYS ! monthIdx else ''undefined'')"

text \<open>
  The part of the component's state that \<^verbatim>\<open>fetchMonth\<close> reads and writes, for datasets of
  a type \<open>'d\<close> (a parsed dataset is an object, so the test \<^verbatim>\<open>cache.current[key]\<close> holds
  exactly of the stored keys). Two fields are not in the source: \<open>pending\<close> lists the keys of
  the fetches in flight, and \<open>fetched\<close> records every network fetch that was issued.
\<close>

record 'd app_state =
  month :: nat
  climateData :: "'d option"
  loading :: bool
  cache :: "string \<rightharpoonup> 'd"
  pending :: "string list"
  fetched :: "string list"

definition fetchMonth :: "nat \<Rightarrow> 'd app_state \<Rightarrow> 'd app_state" where
  "fetchMonth monthIdx s =
     (let key = month_key monthIdx in
      case cache s key of
        Some data \<Rightarrow> s\<lparr>climateData := Some data\<rparr>
      | None \<Rightarrow> s\<lparr>loading := True, pending := pending s @ [key], fetched := fetched s @ [key]\<rparr>)"

text \<open>
  What can happen after the component is mounted: the slider changes the month (it is
  disabled while \<^verbatim>\<open>loading\<close>, ranges over 0 to 11 and reports changes only), a fetch in
  flight settles with a dataset, or it fails. A settled fetch runs the handler that fills
  the cache and then the \<^verbatim>\<open>finally\<close> handler; a failed one runs the \<^verbatim>\<open>finally\<close> handler
  alone. An event that cannot happen in a state gives \<open>None\<close>.
\<close>

datatype 'd event = MonthChange nat | FetchResolved string 'd | FetchRejected string

fun step :: "'d event \<Rightarrow> 'd app_state \<Rightarrow> 'd app_state option" where
  "step (MonthChange idx) s =
     (if \<not> loading s \<and> idx < 12 \<and> idx \<noteq> month s then Some (fetchMonth idx (s\<lparr>month := idx\<rparr>))
      else None)"
| "step (FetchResolved key data) s =
     (if key \<in> set (pending s)
      then Some (s\<lparr>cache := (cache s)(key \<mapsto> data), climateData := Some data,
                    loading := False, pending := remove1 key (pending s)\<rparr>)
      else None)"
| "step (FetchRejected key) s =
     (if key \<in> set (pending s)
      then Some (s\<lparr>loading := False, pending := remove1 key (pending s)\<rparr>)
      else None)"

fun run :: "'d event list \<Rightarrow> 'd app_state \<Rightarrow> 'd app_state option" where
  "run [] s = Some s"
| "run (e # es) s = (case step e s of None \<Rightarrow> None | Some s' \<Rightarrow> run es s')"

text \<open>The state at the first render, and after the mount effect has called
  \<^verbatim>\<open>fetchMonth(month)\<close>.\<close>

definition initial_state :: "'d app_state" where
  "initial_state =
     \<lparr>month = 6, climateData = None, loading = False, cache = Map.empty,
      pending = [], fetched = []\<rparr>"

definition mounted_state :: "'d app_state" where
  "mounted_state = fetchMonth 6 initial_state"

text \<open>At most one fetch is in flight, for a key that is not cached, and \<^verbatim>\<open>loading\<close> says
  whether there is one.\<close>

definition one_in_flight :: "'d app_state \<Rightarrow> bool" where
  "one_in_flight s \<longleftrightarrow>
     (if loading s then length (pending s) = 1 \<and> cache s (hd (pending s)) = None
      else pending s = [])"

text \<open>Bookkeeping for the fetches of one key: whether the key is cached, and the balance
  of the fetches issued for it against those that failed, are in flight or filled the
  cache.\<close>

definition cached :: "'d app_state \<Rightarrow> string \<Rightarrow> nat" where
  "cached s key = (if cache s key = None then 0 else 1)"

definition balanced :: "'d app_state \<Rightarrow> string \<Rightarrow> nat \<Rightarrow> bool" where
  "balanced s key failures \<longleftrightarrow>
     count_list (fetched s) key = failures + count_list (pending s) key + cached s key"

text \<open>A session to try the cache on, with numbers for datasets: July arrives, the user
  goes to June, June arrives, the user goes back to July. And the states after its first
  event and at its end.\<close>

definition example_session :: "nat event list" where
  "example_session =
     [FetchResolved ''jul'' 7, MonthChange 5, FetchResolved ''jun'' 6, MonthChange 6]"

definition example_state_jul :: "nat app_state" where
  "example_state_jul =
     \<lparr>month = 6, climateData = Some 7, loading = False,
      cache = [''jul'' \<mapsto> 7], pending = [], fetched = [''jul'']\<rparr>"

definition example_state :: "nat app_state" where
  "example_state =
     \<lparr>month = 6, climateData = Some 7, loading = False,
      cache = [''jul'' \<mapsto> 7, ''jun'' \<mapsto> 6], pending = [], fetched = [''jul'', ''jun'']\<rparr>"

section \<open>City payload\<close>

text \<open>
  \<^verbatim>\<open>txt.replace(/NaN/g, "null")\<close>: the text is scanned from the left, each match of
  \<^verbatim>\<open>NaN\<close> is replaced and the scan goes on behind the match.
\<close>

function replace_NaN :: "string \<Rightarrow> string" where
  "replace_NaN [] = []"
| "replace_NaN (c # cs) =
     (if prefix ''NaN'' (c # cs) then ''null'' @ replace_NaN (drop 3 (c # cs))
      else c # replace_NaN cs)"
  by pat_completeness auto
termination
  by (relation "measure length") auto

declare replace_NaN.simps [simp del]

section \<open>Properties of the colour scales\<close>

subsection \<open>Rounding and interpolation\<close>

lemma channel_between_convex:
  "channel_between a b c \<longleftrightarrow>
     (\<exists>l :: rat. 0 \<le> l \<and> l \<le> 1 \<and> of_int c = (1 - l) * of_int a + l * of_int b)"
proof
  assume bt: "channel_between a b c"
  show "\<exists>l :: rat. 0 \<le> l \<and> l \<le> 1 \<and> of_int c = (1 - l) * of_int a + l * of_int b"
  proof (cases "a = b")
    case True
    with bt have "c = a" by (simp add: channel_between_def)
    with True show ?thesis by (intro exI[of _ 0]) simp
  next
    case False
    define l :: rat where "l = (of_int c - of_int a) / (of_int b - of_int a)"
    have ne: "(of_int b :: rat) - of_int a \<noteq> 0" using False by simp
    have "l * (of_int b - of_int a) = of_int c - of_int a"
      unfolding l_def using ne by simp
    then have eq: "of_int c = (1 - l) * of_int a + l * of_int b"
      by (simp add: algebra_simps)
    have "0 \<le> l \<and> l \<le> 1"
    proof (cases "a < b")
      case True
      then have "(0::rat) < of_int b - of_int a" by simp
      moreover have "(of_int a :: rat) \<le> of_int c" "(of_int c :: rat) \<le> of_int b"
        using bt True by (simp_all add: channel_between_def)
      ultimately show ?thesis unfolding l_def by (simp add: divide_le_eq)
    next
      case F: False
      with False have "(of_int b :: rat) - of_int a < 0" by simp
      moreover have "(of_int b :: rat) \<le> of_int c" "(of_int c :: rat) \<le> of_int a"
        using bt F by (simp_all add: channel_between_def)
      ultimately show ?thesis unfolding l_def
        by (simp add: zero_le_divide_iff)
    qed
    with eq show ?thesis by blast
  qed
next
  assume "\<exists>l :: rat. 0 \<le> l \<and> l \<le> 1 \<and> of_int c = (1 - l) * of_int a + l * of_int b"
  then obtain l :: rat where l: "0 \<le> l" "l \<le> 1"
    and eq: "of_int c = (1 - l) * of_int a + l * of_int b" by blast
  define x :: rat where "x = (of_int b - of_int a) * l"
  have c: "(of_int c :: rat) = of_int a + x" unfolding x_def eq by (simp add: algebra_simps)
  show "channel_between a b c"
  proof (cases "a \<le> b")
    case True
    then have d: "(0::rat) \<le> of_int b - of_int a" by simp
    have lo: "0 \<le> x" unfolding x_def using d l by simp
    have "x \<le> (of_int b - of_int a) * 1"
      unfolding x_def using l(2) d by (rule mult_left_mono)
    with lo c have "(of_int a :: rat) \<le> of_int c" "(of_int c :: rat) \<le> of_int b" by simp_all
    with True show ?thesis by (simp add: channel_between_def)
  next
    case False
    then have d: "of_int b - of_int a \<le> (0::rat)" by simp
    have hi: "x \<le> 0" unfolding x_def using d l by (simp add: mult_nonpos_nonneg)
    have "(of_int b - of_int a) * 1 \<le> x"
      unfolding x_def using l(2) d by (rule mult_left_mono_neg)
    with hi c have "(of_int b :: rat) \<le> of_int c" "(of_int c :: rat) \<le> of_int a" by simp_all
    with False show ?thesis by (simp add: channel_between_def)
  qed
qed

lemma Math_round_between:
  fixes a b :: int and t :: rat
  assumes "0 \<le> t" "t \<le> 1"
  shows "channel_between a b (Math_round (of_int a + (of_int b - of_int a) * t))"
proof -
  define x :: rat where "x = (of_int b - of_int a) * t"
  have rnd: "Math_round (of_int a + x) = a + \<lfloor>x + 1 / 2\<rfloor>"
    unfolding Math_round_def by (simp add: add.assoc)
  show ?thesis
  proof (cases "a \<le> b")
    case True
    then have d: "(0::rat) \<le> of_int b - of_int a" by simp
    have lo: "0 \<le> x" unfolding x_def using d assms by simp
    have "x \<le> (of_int b - of_int a) * 1"
      unfolding x_def using assms(2) d by (rule mult_left_mono)
    then have hi: "x \<le> of_int (b - a)" by simp
    have "0 \<le> \<lfloor>x + 1 / 2\<rfloor>" using lo by (simp add: le_floor_iff)
    moreover have "\<lfloor>x + 1 / 2\<rfloor> \<le> b - a"
      unfolding floor_le_iff using hi by linarith
    ultimately show ?thesis
      using True unfolding channel_between_def x_def[symmetric] rnd by simp
  next
    case False
    then have d: "of_int b - of_int a \<le> (0::rat)" by simp
    have hi: "x \<le> 0" unfolding x_def using d assms by (simp add: mult_nonpos_nonneg)
    have "(of_int b - of_int a) * 1 \<le> x"
      unfolding x_def using assms(2) d by (rule mult_left_mono_neg)
    then have lo: "of_int (b - a) \<le> x" by simp
    have "b - a \<le> \<lfloor>x + 1 / 2\<rfloor>"
      unfolding le_floor_iff using lo by linarith
    moreover have "\<lfloor>x + 1 / 2\<rfloor> \<le> 0"
      unfolding floor_le_iff using hi by simp
    ultimately show ?thesis
      using False unfolding channel_between_def x_def[symmetric] rnd by simp
  qed
qed

lemma lerp_convex: "0 \<le> t \<Longrightarrow> t \<le> 1 \<Longrightarrow> convex_rgb a b (lerp a b t)"
  by (cases a, cases b) (simp add: Math_round_between)

lemma convex_rgb_left: "convex_rgb a b a"
  by (cases a, cases b) (simp add: channel_between_def)

lemma convex_rgb_right: "convex_rgb a b b"
  by (cases a, cases b) (simp add: channel_between_def)

text \<open>
  Whenever \<open>multiStopColor\<close> reaches its loop, the ratio lies strictly between the first and
  the last position. The loop then returns the interpolation of a segment whose lower
  position is below the ratio and whose upper position is not: the divisor of \<open>t\<close> is
  positive and \<open>t\<close> lies in the unit interval.
\<close>

lemma stop_loop_adjacent:
  "at' (stops ! i) < ratio \<Longrightarrow> ratio < at' (stops ! (length stops - 1)) \<Longrightarrow> i < length stops \<Longrightarrow>
   \<exists>k. i \<le> k \<and> Suc k < length stops \<and> at' (stops ! k) < ratio \<and> ratio \<le> at' (stops ! Suc k) \<and>
       stop_loop ratio stops i =
         lerp (color (stops ! k)) (color (stops ! Suc k))
           ((ratio - at' (stops ! k)) / (at' (stops ! Suc k) - at' (stops ! k)))"
proof (induction ratio stops i rule: stop_loop.induct)
  case (1 ratio stops i)
  show ?case
  proof (cases "i < length stops - 1")
    case False
    with 1(2,3,4) have "i = length stops - 1" by simp
    with 1(2,3) show ?thesis by simp
  next
    case inner: True
    show ?thesis
    proof (cases "ratio \<le> at' (stops ! (i + 1))")
      case True
      with inner 1(2) show ?thesis
        by (subst stop_loop.simps) (auto intro!: exI[of _ i])
    next
      case False
      with inner 1(3) have "\<exists>k. i + 1 \<le> k \<and> Suc k < length stops \<and> at' (stops ! k) < ratio \<and> ratio \<le> at' (stops ! Suc k) \<and>
       stop_loop ratio stops (i + 1) =
         lerp (color (stops ! k)) (color (stops ! Suc k))
           ((ratio - at' (stops ! k)) / (at' (stops ! Suc k) - at' (stops ! k)))"
        by (intro 1(1)) auto
      then obtain k where k: "i + 1 \<le> k" "Suc k < length stops" "at' (stops ! k) < ratio" "ratio \<le> at' (stops ! Suc k)"
        "stop_loop ratio stops (i + 1) =
         lerp (color (stops ! k)) (color (stops ! Suc k))
           ((ratio - at' (stops ! k)) / (at' (stops ! Suc k) - at' (stops ! k)))" by blast
      have "stop_loop ratio stops i = stop_loop ratio stops (i + 1)"
        using inner False by (subst stop_loop.simps) simp
      with k show ?thesis by (intro exI[of _ k]) auto
    qed
  qed
qed


lemma multiStopColor_adjacent:
  assumes len: "2 \<le> length stops"
    and first: "at' (stops ! 0) \<le> at' (stops ! 1)"
    and final: "at' (stops ! (length stops - 2)) \<le> at' (stops ! (length stops - 1))"
    and lo: "at' (stops ! 0) \<le> ratio"
    and hi: "ratio \<le> at' (stops ! (length stops - 1))"
  shows "\<exists>k c. Suc k < length stops \<and> at' (stops ! k) \<le> ratio \<and> ratio \<le> at' (stops ! Suc k) \<and>
           multiStopColor ratio stops = Inr c \<and>
           convex_rgb (color (stops ! k)) (color (stops ! Suc k)) c"
proof -
  from len have ne: "stops \<noteq> []" by (cases stops) simp_all
  consider (low) "ratio \<le> at' (stops ! 0)"
    | (high) "\<not> ratio \<le> at' (stops ! 0)" "at' (stops ! (length stops - 1)) \<le> ratio"
    | (mid) "at' (stops ! 0) < ratio" "ratio < at' (stops ! (length stops - 1))"
    by linarith
  then show ?thesis
  proof cases
    case low
    then have "multiStopColor ratio stops = Inr (color (stops ! 0))"
      using ne by (simp add: multiStopColor_def)
    moreover have "ratio \<le> at' (stops ! Suc 0)" using low first by simp
    ultimately show ?thesis
      using len lo convex_rgb_left by (intro exI[of _ 0] exI[of _ "color (stops ! 0)"]) auto
  next
    case high
    then have "multiStopColor ratio stops = Inr (color (stops ! (length stops - 1)))"
      using ne by (simp add: multiStopColor_def)
    moreover have "Suc (length stops - 2) = length stops - 1" using len by simp
    moreover have "at' (stops ! (length stops - 2)) \<le> ratio" using high(2) final by simp
    ultimately show ?thesis
      using len hi convex_rgb_right
      by (intro exI[of _ "length stops - 2"] exI[of _ "color (stops ! (length stops - 1))"]) auto
  next
    case mid
    have "0 < length stops" using ne by simp
    from stop_loop_adjacent[OF mid(1) mid(2) this]
    obtain k where k: "Suc k < length stops" "at' (stops ! k) < ratio" "ratio \<le> at' (stops ! Suc k)"
      "stop_loop ratio stops 0 =
         lerp (color (stops ! k)) (color (stops ! Suc k))
           ((ratio - at' (stops ! k)) / (at' (stops ! Suc k) - at' (stops ! k)))"
      by blast
    define t where "t = (ratio - at' (stops ! k)) / (at' (stops ! Suc k) - at' (stops ! k))"
    have pos: "0 < at' (stops ! Suc k) - at' (stops ! k)" using k(2,3) by simp
    have "0 \<le> t" unfolding t_def using k(2) pos by simp
    moreover have "t \<le> 1" unfolding t_def using k(3) pos by simp
    ultimately have "convex_rgb (color (stops ! k)) (color (stops ! Suc k))
       (lerp (color (stops ! k)) (color (stops ! Suc k)) t)" by (rule lerp_convex)
    moreover have "multiStopColor ratio stops = Inr (stop_loop ratio stops 0)"
      using mid ne by (simp add: multiStopColor_def)
    ultimately show ?thesis
      using k unfolding t_def
      by (intro exI[of _ k] exI[of _ "stop_loop ratio stops 0"]) auto
  qed
qed

lemma clamped_ratio_range: "0 \<le> clamped_ratio v mn mx \<and> clamped_ratio v mn mx \<le> 1"
  by (simp add: clamped_ratio_def)

lemma clamped_ratio_below:
  assumes "mn < mx" "v \<le> mn"
  shows "clamped_ratio v mn mx = 0"
proof -
  have "(v - mn) / (mx - mn) \<le> 0"
    using assms by (intro divide_nonpos_pos) simp_all
  then show ?thesis using assms(1) by (simp add: clamped_ratio_def)
qed

lemma clamped_ratio_above:
  assumes "mn < mx" "mx \<le> v"
  shows "clamped_ratio v mn mx = 1"
proof -
  have "1 \<le> (v - mn) / (mx - mn)"
    using assms by (simp add: le_divide_eq)
  then show ?thesis using assms(1) by (simp add: clamped_ratio_def)
qed

lemma getColor_clamped:
  "getColor variable v mn mx =
     (case multiStopColor (clamped_ratio v mn mx) (STOP_MAP variable) of
        Inl e \<Rightarrow> Inl e | Inr c \<Rightarrow> Inr (with_alpha c 179))"
  by (auto simp: getColor_def clamped_ratio_def Let_def split: sum.splits)

lemma bubbleColor_clamped:
  "bubbleColor (Some v) mn mx flag =
     (case multiStopColor (if flag then 1 - clamped_ratio v mn mx else clamped_ratio v mn mx)
             GREEN_RED_STOPS of
        Inl e \<Rightarrow> Inl e | Inr c \<Rightarrow> Inr (with_alpha c 220))"
  by (auto simp: bubbleColor_def clamped_ratio_def Let_def split: sum.splits)

lemma STOP_MAP_shape:
  "2 \<le> length (STOP_MAP variable)"
  "at' (STOP_MAP variable ! 0) = 0"
  "at' (STOP_MAP variable ! (length (STOP_MAP variable) - 1)) = 1"
  "at' (STOP_MAP variable ! 0) \<le> at' (STOP_MAP variable ! 1)"
  "at' (STOP_MAP variable ! (length (STOP_MAP variable) - 2))
     \<le> at' (STOP_MAP variable ! (length (STOP_MAP variable) - 1))"
  by (cases variable; simp add: TEMP_STOPS_def PRECIP_STOPS_def SUN_STOPS_def)+

lemma STOP_MAP_nonempty: "STOP_MAP variable \<noteq> []"
  by (cases variable) (simp_all add: TEMP_STOPS_def PRECIP_STOPS_def SUN_STOPS_def)

lemma multiStopColor_first:
  "stops \<noteq> [] \<Longrightarrow> ratio \<le> at' (stops ! 0) \<Longrightarrow> multiStopColor ratio stops = Inr (color (stops ! 0))"
  by (simp add: multiStopColor_def)

lemma multiStopColor_final:
  "stops \<noteq> [] \<Longrightarrow> at' (stops ! 0) < ratio \<Longrightarrow> at' (stops ! (length stops - 1)) \<le> ratio \<Longrightarrow>
   multiStopColor ratio stops = Inr (color (stops ! (length stops - 1)))"
  by (simp add: multiStopColor_def)

text \<open>
  Claim C1, as amended. For a value inside the domain the colour of \<open>getColor\<close> is, channel
  by channel, a convex combination of two adjacent stops of the table, the two that
  enclose the normalised ratio (\<open>convex_rgb\<close>, which \<open>channel_between_convex\<close> relates to
  a weight in the unit interval). For a value at or below the lower bound of a domain with
  \<open>mn < mx\<close> the colour is exactly that of the first stop, and at or above the upper bound
  exactly that of the last stop. The alpha channel is 179 throughout.
\<close>

theorem getColor_convex_or_endpoint:
  "(mn \<le> v \<and> v \<le> mx \<longrightarrow>
      (\<exists>k c. Suc k < length (STOP_MAP variable) \<and>
         at' (STOP_MAP variable ! k) \<le> clamped_ratio v mn mx \<and>
         clamped_ratio v mn mx \<le> at' (STOP_MAP variable ! Suc k) \<and>
         getColor variable v mn mx = Inr (with_alpha c 179) \<and>
         convex_rgb (color (STOP_MAP variable ! k)) (color (STOP_MAP variable ! Suc k)) c)) \<and>
   (mn < mx \<and> v \<le> mn \<longrightarrow>
      getColor variable v mn mx = Inr (with_alpha (color (STOP_MAP variable ! 0)) 179)) \<and>
   (mn < mx \<and> mx \<le> v \<longrightarrow>
      getColor variable v mn mx =
        Inr (with_alpha (color (STOP_MAP variable ! (length (STOP_MAP variable) - 1))) 179))"
proof (intro conjI impI)
  have "at' (STOP_MAP variable ! 0) \<le> clamped_ratio v mn mx"
    "clamped_ratio v mn mx \<le> at' (STOP_MAP variable ! (length (STOP_MAP variable) - 1))"
    using clamped_ratio_range[of v mn mx]
    unfolding STOP_MAP_shape(2) STOP_MAP_shape(3) by simp_all
  from multiStopColor_adjacent[OF STOP_MAP_shape(1) STOP_MAP_shape(4) STOP_MAP_shape(5) this]
  obtain k c where kc: "Suc k < length (STOP_MAP variable)"
    "at' (STOP_MAP variable ! k) \<le> clamped_ratio v mn mx"
    "clamped_ratio v mn mx \<le> at' (STOP_MAP variable ! Suc k)"
    "multiStopColor (clamped_ratio v mn mx) (STOP_MAP variable) = Inr c"
    "convex_rgb (color (STOP_MAP variable ! k)) (color (STOP_MAP variable ! Suc k)) c"
    by blast
  then show "\<exists>k c. Suc k < length (STOP_MAP variable) \<and>
         at' (STOP_MAP variable ! k) \<le> clamped_ratio v mn mx \<and>
         clamped_ratio v mn mx \<le> at' (STOP_MAP variable ! Suc k) \<and>
         getColor variable v mn mx = Inr (with_alpha c 179) \<and>
         convex_rgb (color (STOP_MAP variable ! k)) (color (STOP_MAP variable ! Suc k)) c"
    by (intro exI[of _ k] exI[of _ c]) (simp add: getColor_clamped)
next
  assume "mn < mx \<and> v \<le> mn"
  then have "clamped_ratio v mn mx = 0" by (simp add: clamped_ratio_below)
  then have "multiStopColor (clamped_ratio v mn mx) (STOP_MAP variable)
      = Inr (color (STOP_MAP variable ! 0))"
    by (intro multiStopColor_first STOP_MAP_nonempty) (simp add: STOP_MAP_shape(2))
  then show "getColor variable v mn mx = Inr (with_alpha (color (STOP_MAP variable ! 0)) 179)"
    by (simp add: getColor_clamped)
next
  assume "mn < mx \<and> mx \<le> v"
  then have one: "clamped_ratio v mn mx = 1" by (simp add: clamped_ratio_above)
  have "multiStopColor (clamped_ratio v mn mx) (STOP_MAP variable)
      = Inr (color (STOP_MAP variable ! (length (STOP_MAP variable) - 1)))"
    unfolding one
    by (rule multiStopColor_final[OF STOP_MAP_nonempty])
       (simp_all only: STOP_MAP_shape(2) STOP_MAP_shape(3) zero_less_one order_refl)
  then show "getColor variable v mn mx =
        Inr (with_alpha (color (STOP_MAP variable ! (length (STOP_MAP variable) - 1))) 179)"
    by (simp only: getColor_clamped sum.case)
qed


text \<open>The three parts of C1 at the temperature scale with its fixed domain from -15 to 35:
  the values 10, -20 and 40.\<close>

theorem getColor_convex_or_endpoint_witness:
  "((- 15 :: rat) \<le> 10 \<and> (10 :: rat) \<le> 35 \<and>
      (\<exists>k c. Suc k < length (STOP_MAP temperature) \<and>
         at' (STOP_MAP temperature ! k) \<le> clamped_ratio 10 (- 15) 35 \<and>
         clamped_ratio 10 (- 15) 35 \<le> at' (STOP_MAP temperature ! Suc k) \<and>
         getColor temperature 10 (- 15) 35 = Inr (with_alpha c 179) \<and>
         convex_rgb (color (STOP_MAP temperature ! k)) (color (STOP_MAP temperature ! Suc k)) c)) \<and>
   ((- 15 :: rat) < 35 \<and> (- 20 :: rat) \<le> - 15 \<and>
      getColor temperature (- 20) (- 15) 35 = Inr (33, 102, 172, 179)) \<and>
   ((- 15 :: rat) < 35 \<and> (35 :: rat) \<le> 40 \<and>
      getColor temperature 40 (- 15) 35 = Inr (178, 24, 43, 179))"
  using getColor_convex_or_endpoint[where mn = "- 15" and v = 10 and mx = 35 and variable = temperature]
    getColor_convex_or_endpoint[where mn = "- 15" and v = "- 20" and mx = 35 and variable = temperature]
    getColor_convex_or_endpoint[where mn = "- 15" and v = 40 and mx = 35 and variable = temperature]
  by (simp add: TEMP_STOPS_def)

text \<open>
  C1 as it is stated fails on a degenerate domain: with \<open>mn = mx = 5\<close> the value 7 lies
  outside the domain, and its colour is the white of the middle stop, not the colour of
  an endpoint.
\<close>

theorem getColor_degenerate_outside_counterexample:
  "\<not> ((5 :: rat) \<le> 7 \<and> (7 :: rat) \<le> 5) \<and>
   getColor temperature 7 5 5 = Inr (255, 255, 255, 179) \<and>
   getColor temperature 7 5 5 \<noteq> Inr (with_alpha (color (STOP_MAP temperature ! 0)) 179) \<and>
   getColor temperature 7 5 5 \<noteq>
     Inr (with_alpha (color (STOP_MAP temperature ! (length (STOP_MAP temperature) - 1))) 179)"
  by code_simp

lemma midpoint_colors:
  "multiStopColor (1 / 2) TEMP_STOPS = Inr (255, 255, 255)"
  "multiStopColor (1 / 2) PRECIP_STOPS = Inr (56, 159, 185)"
  "multiStopColor (1 / 2) SUN_STOPS = Inr (210, 222, 191)"
  "multiStopColor (1 / 2) GREEN_RED_STOPS = Inr (255, 200, 0)"
  by code_simp+

lemma green_red_endpoints:
  "multiStopColor 0 GREEN_RED_STOPS = Inr (34, 139, 34)"
  "multiStopColor 1 GREEN_RED_STOPS = Inr (200, 30, 30)"
  by code_simp+

lemma clamped_ratio_degenerate: "clamped_ratio v m m = 1 / 2"
  by (simp add: clamped_ratio_def)

text \<open>
  Claim C3, as amended. When the two bounds of the domain are equal, \<open>getColor\<close> for every
  variable and every number, and \<open>bubbleColor\<close> for every number and either direction,
  return a colour and no error: the ratio is one half, and the colour is the one the
  stop table gives at one half.
\<close>

theorem degenerate_domain_midpoint:
  "clamped_ratio v m m = 1 / 2 \<and>
   getColor variable v m m =
     (case multiStopColor (1 / 2) (STOP_MAP variable) of
        Inl e \<Rightarrow> Inl e | Inr c \<Rightarrow> Inr (with_alpha c 179)) \<and>
   getColor temperature v m m = Inr (255, 255, 255, 179) \<and>
   getColor precipitation v m m = Inr (56, 159, 185, 179) \<and>
   getColor sunshine v m m = Inr (210, 222, 191, 179) \<and>
   multiStopColor (1 / 2) GREEN_RED_STOPS = Inr (255, 200, 0) \<and>
   bubbleColor (Some v) m m flag = Inr (255, 200, 0, 220)"
  by (simp add: getColor_clamped bubbleColor_clamped clamped_ratio_degenerate midpoint_colors)

text \<open>
  C3 as it is stated, for every value, fails at the missing value: on a degenerate domain
  \<open>bubbleColor\<close> still answers gray for it, not the colour at one half.
\<close>

theorem bubbleColor_missing_degenerate_counterexample:
  "bubbleColor None 5 5 False = Inr (160, 160, 160, 220) \<and>
   multiStopColor (1 / 2) GREEN_RED_STOPS = Inr (255, 200, 0) \<and>
   bubbleColor None 5 5 False \<noteq> Inr (255, 200, 0, 220)"
  by code_simp

text \<open>
  Claim C6. With the flag set, \<open>bubbleColor\<close> looks up one minus the clamped ratio. On a
  domain with \<open>mn < mx\<close> the value \<open>mx\<close> has ratio one, so with the flag it gets the colour
  of the first stop, the green (34, 139, 34), and without the flag the red (200, 30, 30).
\<close>

theorem bubbleColor_inverted:
  "bubbleColor (Some v) mn mx True =
     (case multiStopColor (1 - clamped_ratio v mn mx) GREEN_RED_STOPS of
        Inl e \<Rightarrow> Inl e | Inr c \<Rightarrow> Inr (with_alpha c 220)) \<and>
   (mn < mx \<longrightarrow>
      clamped_ratio mx mn mx = 1 \<and>
      bubbleColor (Some mx) mn mx True = Inr (with_alpha (color (GREEN_RED_STOPS ! 0)) 220) \<and>
      bubbleColor (Some mx) mn mx True = Inr (34, 139, 34, 220) \<and>
      bubbleColor (Some mx) mn mx False = Inr (200, 30, 30, 220))"
  by (simp add: bubbleColor_clamped clamped_ratio_above green_red_endpoints)
     (simp add: GREEN_RED_STOPS_def)

text \<open>C6 at the resilience score, the metric whose flag is set, on the domain from 0 to
  100.\<close>

theorem bubbleColor_inverted_witness:
  "(0 :: rat) < 100 \<and> invert M_resilience_score \<and>
   bubbleColor (Some 100) 0 100 (invert M_resilience_score) = Inr (34, 139, 34, 220)"
proof -
  have h: "(0 :: rat) < 100" by simp
  from bubbleColor_inverted[where mn = 0 and mx = 100 and v = 100] h
  have "bubbleColor (Some 100) 0 100 True = Inr (34, 139, 34, 220)" by blast
  with h show ?thesis by simp
qed

lemma green_red_blue:
  assumes "multiStopColor ratio GREEN_RED_STOPS = Inr (r, g, b)"
  shows "b \<le> 34"
proof -
  consider (low) "ratio \<le> 0" | (high) "0 < ratio" "1 \<le> ratio"
    | (seg1) "0 < ratio" "ratio \<le> 1 / 2" | (seg2) "1 / 2 < ratio" "ratio < 1"
    by linarith
  then show ?thesis
  proof cases
    case low
    with assms show ?thesis by (simp add: multiStopColor_def GREEN_RED_STOPS_def)
  next
    case high
    with assms show ?thesis by (simp add: multiStopColor_def GREEN_RED_STOPS_def)
  next
    case seg1
    with assms have "b = Math_round (34 + (0 - 34) * (ratio / (1 / 2)))"
      by (simp add: multiStopColor_def GREEN_RED_STOPS_def stop_loop.simps)
    then show ?thesis using seg1 unfolding Math_round_def floor_le_iff by simp
  next
    case seg2
    with assms have "b = Math_round (0 + (30 - 0) * ((ratio - 1 / 2) / (1 / 2)))"
      by (simp add: multiStopColor_def GREEN_RED_STOPS_def stop_loop.simps)
    then show ?thesis using seg2 unfolding Math_round_def floor_le_iff by simp
  qed
qed

text \<open>
  Claim C7. For every domain and direction \<open>bubbleColor\<close> of a missing value is the gray
  (160, 160, 160) with alpha 220. The green to red gradient gives that colour at no ratio
  at all, in the unit interval or outside, so no present value is ever painted with it.
\<close>

theorem bubbleColor_missing_gray:
  "bubbleColor None mn mx flag = Inr (160, 160, 160, 220) \<and>
   (\<forall>ratio. multiStopColor ratio GREEN_RED_STOPS \<noteq> Inr (160, 160, 160)) \<and>
   bubbleColor (Some v) mn' mx' flag' \<noteq> Inr (160, 160, 160, 220)"
proof (intro conjI allI)
  show "bubbleColor None mn mx flag = Inr (160, 160, 160, 220)"
    by (simp add: bubbleColor_def)
  show "multiStopColor ratio GREEN_RED_STOPS \<noteq> Inr (160, 160, 160)" for ratio
    using green_red_blue[of ratio 160 160 160] by auto
  show "bubbleColor (Some v) mn' mx' flag' \<noteq> Inr (160, 160, 160, 220)"
    unfolding bubbleColor_clamped
    using green_red_blue[of "if flag' then 1 - clamped_ratio v mn' mx' else clamped_ratio v mn' mx'" 160 160 160]
    by (auto split: sum.splits)
qed

section \<open>Properties of the cell assembly\<close>

text \<open>The two loops compute the cells of the spec's description, or throw where the grid
  lacks a row that is read.\<close>

lemma cells_inner_eq:
  "cells_inner lats lons row i j cells =
     cells @ map (\<lambda>j. \<lparr>polygon = polygon_around (lons ! j) (lats ! i) HALF,
                        cell_value = (if j < length row then row ! j else JUndefined),
                        cell_i = i, cell_j = j\<rparr>)
       (filter (\<lambda>j. emitted (if j < length row then row ! j else JUndefined)) [j..<length lons])"
proof (induction lats lons row i j cells rule: cells_inner.induct)
  case (1 lats lons row i j cells)
  show ?case
  proof (cases "j < length lons")
    case False
    then show ?thesis by (subst cells_inner.simps) simp
  next
    case True
    define val where "val = (if j < length row then row ! j else JUndefined)"
    have upt: "[j..<length lons] = j # [j + 1..<length lons]"
      using True by (simp add: upt_conv_Cons)
    show ?thesis
    proof (cases "val = JNull \<or> val = JUndefined")
      case skip: True
      then have "\<not> emitted val" by (simp add: emitted_def)
      moreover have "cells_inner lats lons row i j cells = cells_inner lats lons row i (j + 1) cells"
        using True skip unfolding val_def by (subst cells_inner.simps) (simp add: Let_def)
      ultimately show ?thesis
        using "1.IH"(1)[OF True val_def skip] unfolding upt val_def by simp
    next
      case push: False
      then have "emitted val" by (simp add: emitted_def)
      moreover have "cells_inner lats lons row i j cells =
          cells_inner lats lons row i (j + 1)
            (cells @ [\<lparr>polygon = polygon_around (lons ! j) (lats ! i) HALF,
                        cell_value = val, cell_i = i, cell_j = j\<rparr>])"
        using True push unfolding val_def
        by (subst cells_inner.simps) (simp add: Let_def polygon_around_def)
      ultimately show ?thesis
        using "1.IH"(2)[OF True val_def push] unfolding upt val_def
        by (simp add: polygon_around_def)
    qed
  qed
qed

lemma cells_inner_row:
  "cells_inner lats lons (grid ! i) i 0 cells = cells @ cells_row lats lons grid i"
  unfolding cells_inner_eq cells_row_def
  by (simp add: cell_at_def[abs_def] grid_at_def[abs_def])

lemma cells_row_no_lons: "lons = [] \<Longrightarrow> cells_row lats lons grid i = []"
  by (simp add: cells_row_def)

lemma cells_outer_eq:
  "cells_outer lats lons grid i cells =
     (if length lats \<le> max i (length grid) \<or> lons = []
      then Inr (cells @ concat (map (cells_row lats lons grid) [i..<length lats]))
      else Inl TypeError)"
proof (induction lats lons grid i cells rule: cells_outer.induct)
  case (1 lats lons grid i cells)
  show ?case
  proof (cases "i < length lats")
    case False
    then show ?thesis by (subst cells_outer.simps) (simp add: max_def)
  next
    case True
    then have upt: "[i..<length lats] = i # [i + 1..<length lats]"
      by (simp add: upt_conv_Cons)
    show ?thesis
    proof (cases "i < length grid")
      case row: True
      have "cells_outer lats lons grid i cells =
          cells_outer lats lons grid (i + 1) (cells_inner lats lons (grid ! i) i 0 cells)"
        using True row by (subst cells_outer.simps) simp
      also have "\<dots> = (if length lats \<le> max (i + 1) (length grid) \<or> lons = []
          then Inr (cells_inner lats lons (grid ! i) i 0 cells
                    @ concat (map (cells_row lats lons grid) [i + 1..<length lats]))
          else Inl TypeError)"
        using "1.IH"(1)[OF True row] .
      finally show ?thesis
        using True row unfolding upt by (auto simp: cells_inner_row max_def)
    next
      case norow: False
      show ?thesis
      proof (cases "0 < length lons")
        case True
        then show ?thesis
          using \<open>i < length lats\<close> norow by (subst cells_outer.simps) (auto simp: max_def)
      next
        case nolon: False
        have "cells_outer lats lons grid i cells = cells_outer lats lons grid (i + 1) cells"
          using True norow nolon by (subst cells_outer.simps) simp
        then show ?thesis
          using "1.IH"(2)[OF True norow nolon] nolon True unfolding upt
          by (simp add: cells_row_no_lons)
      qed
    qed
  qed
qed

lemma buildCells_eq:
  "buildCells lats lons grid =
     (if length lats \<le> length grid \<or> lons = [] then Inr (cells_spec lats lons grid)
      else Inl TypeError)"
  unfolding buildCells_def cells_outer_eq cells_spec_def cells_row_def[abs_def] by simp


lemma filter_product:
  "filter Q (List.product xs ys) = concat (map (\<lambda>x. map (Pair x) (filter (\<lambda>y. Q (x, y)) ys)) xs)"
  by (induction xs) (simp_all add: filter_map comp_def)

lemma cells_spec_indices:
  "map (\<lambda>c. (cell_i c, cell_j c)) (cells_spec lats lons grid) =
     filter (\<lambda>(i, j). emitted (grid_at grid i j))
       (List.product [0..<length lats] [0..<length lons])"
  unfolding filter_product cells_spec_def
  by (simp add: map_concat comp_def cell_at_def)

lemma cells_spec_member:
  "c \<in> set (cells_spec lats lons grid) \<longleftrightarrow>
     (\<exists>i j. i < length lats \<and> j < length lons \<and> emitted (grid_at grid i j) \<and>
            c = cell_at lats lons grid i j)"
  unfolding cells_spec_def by auto

lemma cells_spec_count:
  "length (filter (\<lambda>c. cell_i c = i \<and> cell_j c = j) (cells_spec lats lons grid)) =
     (if i < length lats \<and> j < length lons \<and> emitted (grid_at grid i j) then 1 else 0)"
proof -
  let ?ps = "map (\<lambda>c. (cell_i c, cell_j c)) (cells_spec lats lons grid)"
  have dist: "distinct ?ps"
    unfolding cells_spec_indices by (intro distinct_filter distinct_product) simp_all
  have mem: "(i, j) \<in> set ?ps \<longleftrightarrow> i < length lats \<and> j < length lons \<and> emitted (grid_at grid i j)"
    unfolding cells_spec_indices by auto
  have "length (filter (\<lambda>c. cell_i c = i \<and> cell_j c = j) (cells_spec lats lons grid))
      = length (filter (\<lambda>p. p = (i, j)) ?ps)"
    by (simp add: comp_def)
  also have "\<dots> = card ({p. p = (i, j)} \<inter> set ?ps)"
    using dist by (rule distinct_length_filter)
  also have "\<dots> = (if (i, j) \<in> set ?ps then 1 else 0)"
    by simp
  finally show ?thesis unfolding mem .
qed

lemma example_grid_cells:
  "map (\<lambda>c. (cell_i c, cell_j c, cell_value c))
     (cells_spec [50, 51] [10, 11] [[JNum 5, JNull], [JNum 10, JNum 15]])
   = [(0, 0, JNum 5), (1, 0, JNum 10), (1, 1, JNum 15)]"
  by (simp add: cells_spec_def cell_at_def grid_at_def emitted_def)

lemma emitted_present: "emitted val = present val"
  by (cases val) (simp_all add: emitted_def)

text \<open>
  Claim C2. On a grid that has a row for every latitude, the loop returns a list with
  exactly one cell for each grid position whose value is present, and no cell for any
  other position; the cells come in row-major order and each carries the value and the
  row and column index of its position. For the latitudes 50, 51, the longitudes 10, 11
  and the temperatures 5, null, 10, 15 these are the three cells at (0,0), (1,0) and
  (1,1).
\<close>

theorem buildCells_one_cell_per_present_value:
  assumes "length lats \<le> length grid"
  shows "(\<exists>cells. buildCells lats lons grid = Inr cells \<and>
           map (\<lambda>c. (cell_i c, cell_j c)) cells =
             filter (\<lambda>(i, j). present (grid_at grid i j))
               (List.product [0..<length lats] [0..<length lons]) \<and>
           (\<forall>i j. length (filter (\<lambda>c. cell_i c = i \<and> cell_j c = j) cells) =
                    (if i < length lats \<and> j < length lons \<and> present (grid_at grid i j)
                     then 1 else 0)) \<and>
           (\<forall>c \<in> set cells. cell_value c = grid_at grid (cell_i c) (cell_j c))) \<and>
         map_sum id (map (\<lambda>c. (cell_i c, cell_j c, cell_value c)))
           (buildCells [50, 51] [10, 11] [[JNum 5, JNull], [JNum 10, JNum 15]])
         = Inr [(0, 0, JNum 5), (1, 0, JNum 10), (1, 1, JNum 15)]"
proof (intro conjI)
  have "buildCells lats lons grid = Inr (cells_spec lats lons grid)"
    using assms by (simp add: buildCells_eq)
  moreover have "\<forall>c \<in> set (cells_spec lats lons grid). cell_value c = grid_at grid (cell_i c) (cell_j c)"
    by (auto simp: cells_spec_member cell_at_def)
  ultimately show "\<exists>cells. buildCells lats lons grid = Inr cells \<and>
           map (\<lambda>c. (cell_i c, cell_j c)) cells =
             filter (\<lambda>(i, j). present (grid_at grid i j))
               (List.product [0..<length lats] [0..<length lons]) \<and>
           (\<forall>i j. length (filter (\<lambda>c. cell_i c = i \<and> cell_j c = j) cells) =
                    (if i < length lats \<and> j < length lons \<and> present (grid_at grid i j)
                     then 1 else 0)) \<and>
           (\<forall>c \<in> set cells. cell_value c = grid_at grid (cell_i c) (cell_j c))"
    using cells_spec_indices[of lats lons grid] cells_spec_count[of _ _ lats lons grid]
    unfolding emitted_present
    by (intro exI[of _ "cells_spec lats lons grid"]) blast
next
  show "map_sum id (map (\<lambda>c. (cell_i c, cell_j c, cell_value c)))
           (buildCells [50, 51] [10, 11] [[JNum 5, JNull], [JNum 10, JNum 15]])
         = Inr [(0, 0, JNum 5), (1, 0, JNum 10), (1, 1, JNum 15)]"
    by (simp add: buildCells_eq example_grid_cells)
qed

text \<open>C2 at the grid of its example.\<close>

theorem buildCells_one_cell_per_present_value_witness:
  "length [50, 51 :: rat] \<le> length [[JNum 5, JNull], [JNum 10, JNum 15]] \<and>
   (\<exists>cells. buildCells [50, 51] [10, 11] [[JNum 5, JNull], [JNum 10, JNum 15]] = Inr cells \<and>
      map (\<lambda>c. (cell_i c, cell_j c)) cells = [(0, 0), (1, 0), (1, 1)] \<and>
      length cells = 3)"
proof -
  have h: "length [50, 51 :: rat] \<le> length [[JNum 5, JNull], [JNum 10, JNum 15]]" by simp
  have f: "filter (\<lambda>(i, j). present (grid_at [[JNum 5, JNull], [JNum 10, JNum 15]] i j))
             (List.product [0..<length [50, 51 :: rat]] [0..<length [10, 11 :: rat]])
           = [(0, 0), (1, 0), (1, 1)]"
    by (simp add: grid_at_def)
  from buildCells_one_cell_per_present_value[OF h, of "[10, 11]"]
  obtain cells where c: "buildCells [50, 51] [10, 11] [[JNum 5, JNull], [JNum 10, JNum 15]] = Inr cells"
    "map (\<lambda>c. (cell_i c, cell_j c)) cells =
       filter (\<lambda>(i, j). present (grid_at [[JNum 5, JNull], [JNum 10, JNum 15]] i j))
         (List.product [0..<length [50, 51 :: rat]] [0..<length [10, 11 :: rat]])"
    by blast
  from c(2) have idx: "map (\<lambda>c. (cell_i c, cell_j c)) cells = [(0, 0), (1, 0), (1, 1)]"
    unfolding f .
  then have "length (map (\<lambda>c. (cell_i c, cell_j c)) cells) = 3" by simp
  then have "length cells = 3" by simp
  with h c(1) idx show ?thesis by (intro conjI exI[of _ cells])
qed

subsection \<open>Rounded vertices\<close>

lemma round_even_error: "\<bar>of_int (round_even y) - y\<bar> \<le> 1 / 2"
proof -
  have "of_int \<lfloor>y\<rfloor> \<le> y" "y < of_int \<lfloor>y\<rfloor> + 1" by linarith+
  then show ?thesis
    unfolding round_even_def Let_def by (auto simp: abs_le_iff)
qed

lemma round_even_eq:
  assumes "of_int m - 1 / 2 < y" "y < of_int m + 1 / 2"
  shows "round_even y = m"
proof -
  have fl: "\<lfloor>y\<rfloor> = m \<or> \<lfloor>y\<rfloor> = m - 1"
    using assms by linarith
  have b: "of_int \<lfloor>y\<rfloor> \<le> y" "y < of_int \<lfloor>y\<rfloor> + 1" by linarith+
  from fl show ?thesis
  proof
    assume f: "\<lfloor>y\<rfloor> = m"
    with assms(2) show ?thesis
      unfolding round_even_def Let_def by simp
  next
    assume f: "\<lfloor>y\<rfloor> = m - 1"
    with assms(1) have "1 / 2 < y - of_int \<lfloor>y\<rfloor>" by simp
    with f show ?thesis
      unfolding round_even_def Let_def by simp
  qed
qed

lemma ulp_up_pos: "0 < u \<Longrightarrow> 0 < ulp_up n x u"
  by (induction n arbitrary: u) simp_all

lemma ulp_up_cases: "2 ^ 52 * ulp_up n x u \<le> x \<or> ulp_up n x u = u / 2 ^ n"
proof (induction n arbitrary: u)
  case 0
  show ?case by simp
next
  case (Suc n)
  show ?case
  proof (cases "2 ^ 52 * u \<le> x")
    case True
    then show ?thesis by simp
  next
    case False
    from Suc[of "u / 2"] False show ?thesis by auto
  qed
qed

lemma ulp_up_found:
  "k \<le> n \<Longrightarrow> 0 < u \<Longrightarrow> 2 ^ 52 * (u / 2 ^ k) \<le> x \<Longrightarrow> x < 2 ^ 53 * (u / 2 ^ k) \<Longrightarrow>
   ulp_up n x u = u / 2 ^ k"
proof (induction n arbitrary: u k)
  case 0
  then show ?case by simp
next
  case (Suc n)
  show ?case
  proof (cases k)
    case 0
    with Suc.prems show ?thesis by simp
  next
    case (Suc j)
    have "u / 2 ^ j \<le> u" using Suc.prems(2) by (simp add: divide_le_eq)
    have half: "u / 2 / 2 ^ j = u / 2 ^ k" unfolding Suc by simp
    have "x < 2 ^ 53 * (u / 2 ^ k)" by (rule Suc.prems(4))
    also have "\<dots> = 2 ^ 52 * (u / 2 ^ j)" unfolding Suc by simp
    also have "\<dots> \<le> 2 ^ 52 * u" using \<open>u / 2 ^ j \<le> u\<close> by simp
    finally have miss: "\<not> 2 ^ 52 * u \<le> x" by simp
    have "ulp_up n x (u / 2) = u / 2 / 2 ^ j"
      using Suc.prems Suc by (intro Suc.IH) (simp_all add: half[unfolded Suc])
    with miss show ?thesis unfolding Suc by simp
  qed
qed

lemma ulp_down_found: "x < 2 ^ 53 * u \<Longrightarrow> 0 < n \<Longrightarrow> ulp_down n x u = u"
  by (cases n) simp_all

lemma ulp_eq:
  assumes "k \<le> 1074" "2 ^ 52 / 2 ^ k \<le> \<bar>x\<bar>" "\<bar>x\<bar> < 2 ^ 53 / 2 ^ k"
  shows "ulp x = 1 / 2 ^ k"
proof (cases "\<bar>x\<bar> < 2 ^ 52")
  case True
  have "ulp_up 1074 \<bar>x\<bar> 1 = 1 / 2 ^ k"
    using assms by (intro ulp_up_found) simp_all
  with True show ?thesis by (simp add: ulp_def)
next
  case False
  have "k = 0"
  proof (rule ccontr)
    assume "k \<noteq> 0"
    then obtain j where j: "k = Suc j" by (cases k) auto
    have "(1::rat) \<le> 2 ^ j" by simp
    then have "(2::rat) ^ 53 / 2 ^ k \<le> 2 ^ 52" unfolding j by (simp add: divide_le_eq)
    with assms(3) False show False by simp
  qed
  with assms(3) have "\<bar>x\<bar> < 2 ^ 53" by simp
  then have "ulp_down 971 \<bar>x\<bar> 1 = 1" by (intro ulp_down_found) simp_all
  with False \<open>k = 0\<close> show ?thesis by (simp add: ulp_def)
qed


lemma ulp_small:
  assumes "\<bar>x\<bar> < 256"
  shows "0 < ulp x \<and> ulp x < 1 / 2 ^ 44"
proof -
  from assms have u: "ulp x = ulp_up 1074 \<bar>x\<bar> 1" by (simp add: ulp_def)
  have pos: "0 < ulp x" unfolding u by (rule ulp_up_pos) simp
  from ulp_up_cases[of 1074 "\<bar>x\<bar>" 1]
  have "2 ^ 52 * ulp x \<le> \<bar>x\<bar> \<or> ulp x = 1 / 2 ^ 1074" unfolding u .
  then have "ulp x < 1 / 2 ^ 44"
  proof
    assume "2 ^ 52 * ulp x \<le> \<bar>x\<bar>"
    with assms have "2 ^ 52 * ulp x < 256" by simp
    then show ?thesis by simp
  next
    assume e: "ulp x = 1 / 2 ^ 1074"
    have "(2::rat) ^ 44 < 2 ^ 1074" by (rule power_strict_increasing) simp_all
    then show ?thesis unfolding e by (simp add: divide_less_eq del: power_numeral)
  qed
  with pos show ?thesis ..
qed

lemma binary64_error:
  assumes "\<bar>x\<bar> < 256"
  shows "\<bar>binary64 x - x\<bar> < 1 / 2 ^ 45"
proof -
  define u where "u = ulp x"
  from ulp_small[OF assms] have u: "0 < u" "u < 1 / 2 ^ 44" unfolding u_def by simp_all
  define r :: rat where "r = of_int (round_even (x / u))"
  have "\<bar>r - x / u\<bar> \<le> 1 / 2" unfolding r_def by (rule round_even_error)
  then have "\<bar>r - x / u\<bar> * u \<le> 1 / 2 * u" using u(1) by (intro mult_right_mono) simp_all
  moreover have "\<bar>r - x / u\<bar> * u = \<bar>r * u - x\<bar>"
  proof -
    have "\<bar>r - x / u\<bar> * u = \<bar>r - x / u\<bar> * \<bar>u\<bar>" using u(1) by simp
    also have "\<dots> = \<bar>(r - x / u) * u\<bar>" by (simp only: abs_mult)
    also have "(r - x / u) * u = r * u - x" using u(1) by (simp add: left_diff_distrib)
    finally show ?thesis .
  qed
  ultimately have "\<bar>r * u - x\<bar> \<le> u / 2" by simp
  also have "\<dots> < 1 / 2 ^ 45" using u(2) by simp
  finally show ?thesis unfolding binary64_def Let_def u_def[symmetric] r_def .
qed

lemma binary64_eq:
  assumes "k \<le> 1074" "2 ^ 52 / 2 ^ k \<le> \<bar>x\<bar>" "\<bar>x\<bar> < 2 ^ 53 / 2 ^ k"
    and "of_int m - 1 / 2 < x * 2 ^ k" "x * 2 ^ k < of_int m + 1 / 2"
  shows "binary64 x = of_int m / 2 ^ k"
proof -
  have u: "ulp x = 1 / 2 ^ k" using assms(1,2,3) by (rule ulp_eq)
  have "round_even (x / ulp x) = m"
    unfolding u using assms(4,5) by (intro round_even_eq) simp_all
  then show ?thesis unfolding binary64_def Let_def u by simp
qed

lemma CELL_SIZE_value: "CELL_SIZE = 7566047373982433 / 2 ^ 55"
  unfolding CELL_SIZE_def
  using binary64_eq[of 55 "21 / 100" 7566047373982433] by simp

lemma HALF_value: "HALF = 7566047373982433 / 2 ^ 56"
  unfolding HALF_def CELL_SIZE_value
  using binary64_eq[of 56 "7566047373982433 / 2 ^ 55 / 2" 7566047373982433] by simp

text \<open>For a grid point of magnitude at most 180, each rounded vertex coordinate is less
  than \<open>HALF + 2 ^ -45\<close> away from the coordinate of the grid point.\<close>

lemma HALF_bounds: "0 < HALF" "HALF < 105 / 1000" "HALF + 1 / 2 ^ 45 < 1 / 4 / 2"
  unfolding HALF_value by simp_all

lemma vertex_near:
  assumes "\<bar>x\<bar> \<le> 180"
  shows "\<bar>binary64 (x - HALF) - x\<bar> < HALF + 1 / 2 ^ 45"
    and "\<bar>binary64 (x + HALF) - x\<bar> < HALF + 1 / 2 ^ 45"
proof -
  have lo: "\<bar>x - HALF\<bar> < 256" and hi: "\<bar>x + HALF\<bar> < 256"
    using assms HALF_bounds(1,2) by linarith+
  have "\<bar>binary64 (x - HALF) - (x - HALF)\<bar> < 1 / 2 ^ 45"
    using lo by (rule binary64_error)
  moreover have "\<bar>binary64 (x + HALF) - (x + HALF)\<bar> < 1 / 2 ^ 45"
    using hi by (rule binary64_error)
  ultimately show "\<bar>binary64 (x - HALF) - x\<bar> < HALF + 1 / 2 ^ 45"
    and "\<bar>binary64 (x + HALF) - x\<bar> < HALF + 1 / 2 ^ 45"
    using HALF_bounds(1) by linarith+
qed

lemma polygon_around_near:
  assumes "\<bar>glon\<bar> \<le> 180" "\<bar>glat\<bar> \<le> 180" "(x, y) \<in> set (polygon_around glon glat HALF)"
  shows "\<bar>x - glon\<bar> < HALF + 1 / 2 ^ 45 \<and> \<bar>y - glat\<bar> < HALF + 1 / 2 ^ 45"
  using assms(3) vertex_near[OF assms(1)] vertex_near[OF assms(2)]
  unfolding polygon_around_def by auto

lemma buildCells_member:
  assumes "buildCells lats lons grid = Inr cells" and "c \<in> set cells"
  shows "cell_i c < length lats \<and> cell_j c < length lons \<and>
         polygon c = polygon_around (lons ! cell_j c) (lats ! cell_i c) HALF"
proof -
  from assms(1) have "cells = cells_spec lats lons grid"
    by (simp add: buildCells_eq split: if_splits)
  with assms(2) have "c \<in> set (cells_spec lats lons grid)" by simp
  then obtain i j where "i < length lats" "j < length lons" "c = cell_at lats lons grid i j"
    unfolding cells_spec_member by blast
  then show ?thesis by (simp add: cell_at_def)
qed

text \<open>
  Claim C8, as amended. Every cell that the loop returns has as polygon the four vertices
  \<open>lon \<plusminus> HALF\<close>, \<open>lat \<plusminus> HALF\<close> around its own grid point, each coordinate rounded to
  binary64, so the polygon is an axis-aligned rectangle. \<open>HALF\<close> is the binary64 number
  \<open>7566047373982433 / 2 ^ 56\<close>, just below 0.105. For a grid point with coordinates of
  magnitude at most 180, each vertex is less than \<open>HALF + 2 ^ -45\<close> away from the grid
  point on both axes, and that bound is strictly less than half of the grid spacing 0.25.
  Hence, for two cells of the list whose grid points are at least 0.25 apart on an axis,
  every vertex of the one lies strictly before every vertex of the other on that axis: the
  cells do not touch.
\<close>

theorem cell_polygon_rounded_half_width:
  assumes "buildCells lats lons grid = Inr cells" and "c \<in> set cells" and "c' \<in> set cells"
    and "\<bar>lons ! cell_j c\<bar> \<le> 180" and "\<bar>lats ! cell_i c\<bar> \<le> 180"
    and "\<bar>lons ! cell_j c'\<bar> \<le> 180" and "\<bar>lats ! cell_i c'\<bar> \<le> 180"
  shows "cell_i c < length lats \<and> cell_j c < length lons \<and>
         polygon c = polygon_around (lons ! cell_j c) (lats ! cell_i c) HALF \<and>
         (\<forall>(x, y) \<in> set (polygon c).
            \<bar>x - lons ! cell_j c\<bar> < HALF + 1 / 2 ^ 45 \<and>
            \<bar>y - lats ! cell_i c\<bar> < HALF + 1 / 2 ^ 45) \<and>
         HALF = 7566047373982433 / 2 ^ 56 \<and> HALF < 105 / 1000 \<and>
         HALF + 1 / 2 ^ 45 < (1 / 4) / 2 \<and>
         (lons ! cell_j c + 1 / 4 \<le> lons ! cell_j c' \<longrightarrow>
            (\<forall>(x, y) \<in> set (polygon c). \<forall>(x', y') \<in> set (polygon c'). x < x')) \<and>
         (lats ! cell_i c + 1 / 4 \<le> lats ! cell_i c' \<longrightarrow>
            (\<forall>(x, y) \<in> set (polygon c). \<forall>(x', y') \<in> set (polygon c'). y < y'))"
proof -
  from buildCells_member[OF assms(1,2)]
  have pc: "polygon c = polygon_around (lons ! cell_j c) (lats ! cell_i c) HALF"
    and ic: "cell_i c < length lats" "cell_j c < length lons" by simp_all
  from buildCells_member[OF assms(1,3)]
  have pc': "polygon c' = polygon_around (lons ! cell_j c') (lats ! cell_i c') HALF" by simp
  have near: "\<bar>x - lons ! cell_j c\<bar> < HALF + 1 / 2 ^ 45 \<and> \<bar>y - lats ! cell_i c\<bar> < HALF + 1 / 2 ^ 45"
    if "(x, y) \<in> set (polygon c)" for x y
    using that unfolding pc by (rule polygon_around_near[OF assms(4,5)])
  have near': "\<bar>x - lons ! cell_j c'\<bar> < HALF + 1 / 2 ^ 45 \<and> \<bar>y - lats ! cell_i c'\<bar> < HALF + 1 / 2 ^ 45"
    if "(x, y) \<in> set (polygon c')" for x y
    using that unfolding pc' by (rule polygon_around_near[OF assms(6,7)])
  have lon_apart: "x < x'"
    if "lons ! cell_j c + 1 / 4 \<le> lons ! cell_j c'"
      and "(x, y) \<in> set (polygon c)" and "(x', y') \<in> set (polygon c')" for x y x' y'
    using near[OF that(2)] near'[OF that(3)] that(1) HALF_bounds(3) by linarith
  have lat_apart: "y < y'"
    if "lats ! cell_i c + 1 / 4 \<le> lats ! cell_i c'"
      and "(x, y) \<in> set (polygon c)" and "(x', y') \<in> set (polygon c')" for x y x' y'
    using near[OF that(2)] near'[OF that(3)] that(1) HALF_bounds(3) by linarith
  show ?thesis
    using ic pc near lon_apart lat_apart HALF_value HALF_bounds(2,3)
    by (intro conjI impI ballI) (auto simp only: split_paired_all case_prod_conv)
qed

text \<open>C8 at the two cells of row 1 of the example grid, whose longitudes 10 and 11 are
  more than 0.25 apart: the right edge of the first lies before the left edge of the
  second.\<close>

theorem cell_polygon_rounded_half_width_witness:
  "buildCells [50, 51] [10, 11] [[JNum 5, JNull], [JNum 10, JNum 15]]
     = Inr (cells_spec [50, 51] [10, 11] [[JNum 5, JNull], [JNum 10, JNum 15]]) \<and>
   cell_at [50, 51] [10, 11] [[JNum 5, JNull], [JNum 10, JNum 15]] 1 0
     \<in> set (cells_spec [50, 51] [10, 11] [[JNum 5, JNull], [JNum 10, JNum 15]]) \<and>
   cell_at [50, 51] [10, 11] [[JNum 5, JNull], [JNum 10, JNum 15]] 1 1
     \<in> set (cells_spec [50, 51] [10, 11] [[JNum 5, JNull], [JNum 10, JNum 15]]) \<and>
   \<bar>10 :: rat\<bar> \<le> 180 \<and> \<bar>11 :: rat\<bar> \<le> 180 \<and> \<bar>51 :: rat\<bar> \<le> 180 \<and>
   (10 :: rat) + 1 / 4 \<le> 11 \<and>
   \<bar>binary64 (10 + HALF) - 10\<bar> < HALF + 1 / 2 ^ 45 \<and>
   binary64 (10 + HALF) < binary64 (11 - HALF)"
proof -
  let ?grid = "[[JNum 5, JNull], [JNum 10, JNum 15]]"
  let ?c = "cell_at [50, 51] [10, 11] ?grid 1 0"
  let ?c' = "cell_at [50, 51] [10, 11] ?grid 1 1"
  have b: "buildCells [50, 51] [10, 11] ?grid = Inr (cells_spec [50, 51] [10, 11] ?grid)"
    by (simp add: buildCells_eq)
  have m: "?c \<in> set (cells_spec [50, 51] [10, 11] ?grid)"
    unfolding cells_spec_member
    by (intro exI[of _ 1] exI[of _ 0]) (simp add: grid_at_def emitted_def)
  have m': "?c' \<in> set (cells_spec [50, 51] [10, 11] ?grid)"
    unfolding cells_spec_member
    by (intro exI[of _ 1] exI[of _ 1]) (simp add: grid_at_def emitted_def)
  have idx: "cell_i ?c = 1" "cell_j ?c = 0" "cell_i ?c' = 1" "cell_j ?c' = 1"
    by (simp_all add: cell_at_def)
  have h: "\<bar>[10, 11 :: rat] ! cell_j ?c\<bar> \<le> 180" "\<bar>[50, 51 :: rat] ! cell_i ?c\<bar> \<le> 180"
    "\<bar>[10, 11 :: rat] ! cell_j ?c'\<bar> \<le> 180" "\<bar>[50, 51 :: rat] ! cell_i ?c'\<bar> \<le> 180"
    unfolding idx by simp_all
  have far: "[10, 11 :: rat] ! cell_j ?c + 1 / 4 \<le> [10, 11] ! cell_j ?c'"
    unfolding idx by simp
  have v: "(binary64 (10 + HALF), binary64 (51 - HALF)) \<in> set (polygon ?c)"
    by (simp add: cell_at_def polygon_around_def)
  have v': "(binary64 (11 - HALF), binary64 (51 - HALF)) \<in> set (polygon ?c')"
    by (simp add: cell_at_def polygon_around_def)
  note t = cell_polygon_rounded_half_width[OF b m m' h]
  from t have "\<forall>(x, y) \<in> set (polygon ?c).
      \<bar>x - [10, 11] ! cell_j ?c\<bar> < HALF + 1 / 2 ^ 45 \<and>
      \<bar>y - [50, 51] ! cell_i ?c\<bar> < HALF + 1 / 2 ^ 45" by blast
  from bspec[OF this v] have n: "\<bar>binary64 (10 + HALF) - 10\<bar> < HALF + 1 / 2 ^ 45"
    unfolding idx by simp
  from t far have "\<forall>(x, y) \<in> set (polygon ?c). \<forall>(x', y') \<in> set (polygon ?c'). x < x'"
    by blast
  from bspec[OF this v] have "\<forall>(x', y') \<in> set (polygon ?c'). binary64 (10 + HALF) < x'"
    by simp
  from bspec[OF this v'] have a: "binary64 (10 + HALF) < binary64 (11 - HALF)" by simp
  from b m m' n a show ?thesis by simp
qed

text \<open>
  C8 as it is stated fails at the longitude 10. The cell of the grid point (10, 50) has its
  right edge at \<open>2844304639661179 / 2 ^ 48\<close>, which is farther from 10 than \<open>HALF\<close> and
  farther than 0.105; and it is wider than it is high, so it is no square.
\<close>

theorem cell_vertex_beyond_half_width_counterexample:
  "buildCells [50] [10] [[JNum 5]] =
     Inr [\<lparr>polygon =
             [(2785194894551941 / 2 ^ 48, 7022096981489091 / 2 ^ 47),
              (2844304639661179 / 2 ^ 48, 7022096981489091 / 2 ^ 47),
              (2844304639661179 / 2 ^ 48, 7051651854043709 / 2 ^ 47),
              (2785194894551941 / 2 ^ 48, 7051651854043709 / 2 ^ 47)],
           cell_value = JNum 5, cell_i = 0, cell_j = 0\<rparr>] \<and>
   HALF < \<bar>2844304639661179 / 2 ^ 48 - 10\<bar> \<and>
   (105 / 1000 :: rat) < \<bar>2844304639661179 / 2 ^ 48 - 10\<bar> \<and>
   (2844304639661179 / 2 ^ 48 - 2785194894551941 / 2 ^ 48 :: rat)
     \<noteq> 7051651854043709 / 2 ^ 47 - 7022096981489091 / 2 ^ 47"
proof -
  have "binary64 (10 - HALF) = 2785194894551941 / 2 ^ 48"
    unfolding HALF_value
    using binary64_eq[of 49 "10 - 7566047373982433 / 2 ^ 56" "2 * 2785194894551941"] by simp
  moreover have "binary64 (10 + HALF) = 2844304639661179 / 2 ^ 48"
    unfolding HALF_value
    using binary64_eq[of 49 "10 + 7566047373982433 / 2 ^ 56" "2 * 2844304639661179"] by simp
  moreover have "binary64 (50 - HALF) = 7022096981489091 / 2 ^ 47"
    unfolding HALF_value
    using binary64_eq[of 47 "50 - 7566047373982433 / 2 ^ 56" 7022096981489091] by simp
  moreover have "binary64 (50 + HALF) = 7051651854043709 / 2 ^ 47"
    unfolding HALF_value
    using binary64_eq[of 47 "50 + 7566047373982433 / 2 ^ 56" 7051651854043709] by simp
  ultimately have "buildCells [50] [10] [[JNum 5]] =
     Inr [\<lparr>polygon =
             [(2785194894551941 / 2 ^ 48, 7022096981489091 / 2 ^ 47),
              (2844304639661179 / 2 ^ 48, 7022096981489091 / 2 ^ 47),
              (2844304639661179 / 2 ^ 48, 7051651854043709 / 2 ^ 47),
              (2785194894551941 / 2 ^ 48, 7051651854043709 / 2 ^ 47)],
           cell_value = JNum 5, cell_i = 0, cell_j = 0\<rparr>]"
    by (simp add: buildCells_eq cells_spec_def cell_at_def polygon_around_def grid_at_def
          emitted_def)
  moreover have "HALF < \<bar>2844304639661179 / 2 ^ 48 - 10\<bar>"
    unfolding HALF_value by simp
  ultimately show ?thesis by simp
qed

section \<open>Properties of the metric range\<close>

lemma set_filter_present: "set (filter_present vs) = {v. Some v \<in> set vs}"
  by (induction vs rule: filter_present.induct) auto

lemma Math_min_Min: "Math_min v vs = Min (set (v # vs))"
  unfolding Math_min_def by (simp only: Min.set_eq_fold)

lemma Math_max_Max: "Math_max v vs = Max (set (v # vs))"
  unfolding Math_max_def by (simp only: Max.set_eq_fold)

lemma Min_le_Max_rat:
  fixes A :: "rat set"
  assumes "finite A" "A \<noteq> {}"
  shows "Min A \<le> Max A"
proof -
  have "Min A \<in> A" using assms by (rule Min_in)
  with assms(1) show ?thesis by (rule Max_ge)
qed

lemma bubbleRange_effect_present:
  assumes "filter_present (map (getValue m) cs) = v # vs"
  shows "bubbleRange_effect (Some cs) m current =
           \<lparr>range_min = Min {x. Some x \<in> getValue m ` set cs},
            range_max = Max {x. Some x \<in> getValue m ` set cs}\<rparr>"
proof -
  have "set (v # vs) = {x. Some x \<in> getValue m ` set cs}"
    using set_filter_present[of "map (getValue m) cs"] unfolding assms by simp
  then show ?thesis
    using assms by (simp add: bubbleRange_effect_def Math_min_Min Math_max_Max del: set_simps)
qed

lemma filter_present_empty: "filter_present vs = [] \<longleftrightarrow> (\<forall>v \<in> set vs. v = None)"
  by (induction vs rule: filter_present.induct) auto

text \<open>
  Claim C5. When at least one record of the list has a present value under the metric's
  accessor, the range that the effect stores has \<open>range_min \<le> range_max\<close>; both bounds are
  accessor outputs of records of the list, and every present accessor output lies between
  them. Records without a value do not enter, neither as zero nor otherwise.
\<close>

theorem bubbleRange_effect_min_max:
  assumes "c0 \<in> set cs" and "getValue m c0 \<noteq> None"
    and "r = bubbleRange_effect (Some cs) m current"
  shows "range_min r \<le> range_max r \<and>
         (\<exists>c \<in> set cs. getValue m c = Some (range_min r)) \<and>
         (\<exists>c \<in> set cs. getValue m c = Some (range_max r)) \<and>
         (\<forall>c \<in> set cs. \<forall>v. getValue m c = Some v \<longrightarrow> range_min r \<le> v \<and> v \<le> range_max r)"
proof -
  let ?V = "{x. Some x \<in> getValue m ` set cs}"
  have "filter_present (map (getValue m) cs) \<noteq> []"
    using assms(1,2) by (auto simp: filter_present_empty)
  then obtain v vs where "filter_present (map (getValue m) cs) = v # vs"
    by (cases "filter_present (map (getValue m) cs)") auto
  then have r: "range_min r = Min ?V" "range_max r = Max ?V" and V: "?V = set (v # vs)"
    using set_filter_present[of "map (getValue m) cs"]
    by (simp_all add: assms(3) bubbleRange_effect_present del: set_simps)
  have fin: "finite ?V" and ne: "?V \<noteq> {}" unfolding V by simp_all
  have "Min ?V \<in> ?V" "Max ?V \<in> ?V" using fin ne by (rule Min_in, rule Max_in)
  then have "\<exists>c \<in> set cs. getValue m c = Some (range_min r)"
    "\<exists>c \<in> set cs. getValue m c = Some (range_max r)"
    unfolding r by (auto simp: image_iff)
  moreover have "range_min r \<le> range_max r"
    unfolding r using fin ne by (rule Min_le_Max_rat)
  moreover have "\<forall>c \<in> set cs. \<forall>v. getValue m c = Some v \<longrightarrow> range_min r \<le> v \<and> v \<le> range_max r"
  proof (intro ballI allI impI)
    fix c v assume "c \<in> set cs" "getValue m c = Some v"
    then have "v \<in> ?V" by (auto simp: image_iff intro!: bexI[of _ c])
    then show "range_min r \<le> v \<and> v \<le> range_max r"
      unfolding r using fin by (simp add: Min_le Max_ge)
  qed
  ultimately show ?thesis by blast
qed


lemma example_cities_range:
  "bubbleRange_effect (Some example_cities) M_delta_precip_pct current
     = \<lparr>range_min = 5, range_max = 12\<rparr>"
  by (simp add: bubbleRange_effect_def example_cities_def example_city_def
        Math_min_def Math_max_def Math_abs_def)

text \<open>C5 at the three example cities and the precipitation change: the values are 12 and
  5, the record without a value does not pull the minimum to zero.\<close>

theorem bubbleRange_effect_min_max_witness:
  "example_city ''A'' (Some (- 12)) \<in> set example_cities \<and>
   getValue M_delta_precip_pct (example_city ''A'' (Some (- 12))) \<noteq> None \<and>
   bubbleRange_effect (Some example_cities) M_delta_precip_pct bubbleRange_init
     = \<lparr>range_min = 5, range_max = 12\<rparr> \<and>
   range_min (bubbleRange_effect (Some example_cities) M_delta_precip_pct bubbleRange_init)
     \<le> range_max (bubbleRange_effect (Some example_cities) M_delta_precip_pct bubbleRange_init) \<and>
   (\<exists>c \<in> set example_cities. getValue M_delta_precip_pct c = Some 5) \<and>
   (\<exists>c \<in> set example_cities. getValue M_delta_precip_pct c = Some 12)"
proof -
  have h1: "example_city ''A'' (Some (- 12)) \<in> set example_cities"
    by (simp add: example_cities_def)
  have h2: "getValue M_delta_precip_pct (example_city ''A'' (Some (- 12))) \<noteq> None"
    by (simp add: example_city_def)
  note t = bubbleRange_effect_min_max[OF h1 h2 refl, of bubbleRange_init]
  show ?thesis
    using h1 h2 t unfolding example_cities_range by simp
qed

lemma bubbleRange_effect_ordered:
  assumes "range_min current \<le> range_max current"
  shows "range_min (bubbleRange_effect cities m current)
           \<le> range_max (bubbleRange_effect cities m current)"
proof (cases cities)
  case None
  with assms show ?thesis by (simp add: bubbleRange_effect_def)
next
  case (Some cs)
  show ?thesis
  proof (cases "filter_present (map (getValue m) cs)")
    case Nil
    with Some assms show ?thesis by (simp add: bubbleRange_effect_def)
  next
    case (Cons v vs)
    have fin: "finite (set (v # vs))" and ne: "set (v # vs) \<noteq> {}" by simp_all
    have "Math_min v vs \<le> Math_max v vs"
      unfolding Math_min_Min Math_max_Max using fin ne by (rule Min_le_Max_rat)
    with Some Cons show ?thesis by (simp add: bubbleRange_effect_def)
  qed
qed

lemma bubbleRange_runs_ordered:
  "range_min current \<le> range_max current \<Longrightarrow>
   range_min (bubbleRange_runs runs current) \<le> range_max (bubbleRange_runs runs current)"
proof (induction runs arbitrary: current)
  case Nil
  then show ?case by simp
next
  case (Cons run rest)
  obtain cities m where run: "run = (cities, m)" by (cases run)
  show ?case
    unfolding run bubbleRange_runs.simps
    by (rule Cons.IH) (rule bubbleRange_effect_ordered[OF Cons.prems])
qed

lemma bubbleRange_effect_retained:
  "\<forall>c \<in> set cs. getValue m c = None \<Longrightarrow> bubbleRange_effect (Some cs) m current = current"
proof -
  assume "\<forall>c \<in> set cs. getValue m c = None"
  then have "filter_present (map (getValue m) cs) = []"
    by (simp add: filter_present_empty)
  then show ?thesis by (simp add: bubbleRange_effect_def)
qed

lemma bubbleRange_effect_changed:
  assumes "bubbleRange_effect cities m current \<noteq> current"
  shows "\<exists>cs c. cities = Some cs \<and> c \<in> set cs \<and> getValue m c \<noteq> None"
proof (cases cities)
  case None
  with assms show ?thesis by (simp add: bubbleRange_effect_def)
next
  case (Some cs)
  have "\<not> (\<forall>c \<in> set cs. getValue m c = None)"
  proof
    assume "\<forall>c \<in> set cs. getValue m c = None"
    then have "bubbleRange_effect (Some cs) m current = current"
      by (rule bubbleRange_effect_retained)
    with assms Some show False by simp
  qed
  then obtain c where "c \<in> set cs" "getValue m c \<noteq> None" by blast
  with Some show ?thesis by blast
qed

text \<open>
  Claim C10. The range starts at 0 and 1, and after any sequence of runs of the effect its
  minimum is at most its maximum. A run leaves the range as it was while the cities have
  not arrived and when no record has a present value under the metric; so whenever a run
  changes the range, some record had a present value.
\<close>

theorem bubbleRange_always_ordered:
  "bubbleRange_init = \<lparr>range_min = 0, range_max = 1\<rparr> \<and>
   range_min (bubbleRange_runs runs bubbleRange_init)
     \<le> range_max (bubbleRange_runs runs bubbleRange_init) \<and>
   bubbleRange_effect None m current = current \<and>
   ((\<forall>c \<in> set cs. getValue m c = None) \<longrightarrow> bubbleRange_effect (Some cs) m current = current) \<and>
   (bubbleRange_effect cities m current \<noteq> current \<longrightarrow>
      (\<exists>cs' c. cities = Some cs' \<and> c \<in> set cs' \<and> getValue m c \<noteq> None))"
proof (intro conjI impI)
  show "bubbleRange_init = \<lparr>range_min = 0, range_max = 1\<rparr>"
    by (simp add: bubbleRange_init_def)
  show "range_min (bubbleRange_runs runs bubbleRange_init)
     \<le> range_max (bubbleRange_runs runs bubbleRange_init)"
    by (rule bubbleRange_runs_ordered) (simp add: bubbleRange_init_def)
  show "bubbleRange_effect None m current = current"
    by (simp add: bubbleRange_effect_def)
  show "bubbleRange_effect (Some cs) m current = current"
    if "\<forall>c \<in> set cs. getValue m c = None"
    using that by (rule bubbleRange_effect_retained)
  show "\<exists>cs' c. cities = Some cs' \<and> c \<in> set cs' \<and> getValue m c \<noteq> None"
    if "bubbleRange_effect cities m current \<noteq> current"
    using that by (rule bubbleRange_effect_changed)
qed

text \<open>C10 at the example cities: the temperature change is missing in all of them and
  leaves a range alone, the precipitation change replaces the initial range.\<close>

theorem bubbleRange_always_ordered_witness:
  "map (getValue M_delta_temp_c) example_cities = [None, None, None] \<and>
   bubbleRange_effect (Some example_cities) M_delta_temp_c \<lparr>range_min = 5, range_max = 12\<rparr>
     = \<lparr>range_min = 5, range_max = 12\<rparr> \<and>
   bubbleRange_effect (Some example_cities) M_delta_precip_pct bubbleRange_init \<noteq> bubbleRange_init \<and>
   (\<exists>cs' c. Some example_cities = Some cs' \<and> c \<in> set cs' \<and> getValue M_delta_precip_pct c \<noteq> None) \<and>
   range_min (bubbleRange_runs
       [(None, M_resilience_score), (Some example_cities, M_delta_precip_pct),
        (Some example_cities, M_delta_temp_c)] bubbleRange_init)
     \<le> range_max (bubbleRange_runs
       [(None, M_resilience_score), (Some example_cities, M_delta_precip_pct),
        (Some example_cities, M_delta_temp_c)] bubbleRange_init)"
proof -
  have h1: "\<forall>c \<in> set example_cities. getValue M_delta_temp_c c = None"
    by (simp add: example_cities_def example_city_def)
  have h2: "bubbleRange_effect (Some example_cities) M_delta_precip_pct bubbleRange_init
      \<noteq> bubbleRange_init"
    unfolding example_cities_range by (simp add: bubbleRange_init_def)
  note t1 = bubbleRange_always_ordered[where cs = example_cities and m = M_delta_temp_c
      and current = "\<lparr>range_min = 5, range_max = 12\<rparr>"
      and runs = "[(None, M_resilience_score), (Some example_cities, M_delta_precip_pct),
        (Some example_cities, M_delta_temp_c)]"]
  note t2 = bubbleRange_always_ordered[where cities = "Some example_cities"
      and m = M_delta_precip_pct and current = bubbleRange_init]
  from t1 h1 have a: "bubbleRange_effect (Some example_cities) M_delta_temp_c
      \<lparr>range_min = 5, range_max = 12\<rparr> = \<lparr>range_min = 5, range_max = 12\<rparr>" by blast
  from t1 have b: "range_min (bubbleRange_runs
       [(None, M_resilience_score), (Some example_cities, M_delta_precip_pct),
        (Some example_cities, M_delta_temp_c)] bubbleRange_init)
     \<le> range_max (bubbleRange_runs
       [(None, M_resilience_score), (Some example_cities, M_delta_precip_pct),
        (Some example_cities, M_delta_temp_c)] bubbleRange_init)" by blast
  from t2 h2 have c: "\<exists>cs' c. Some example_cities = Some cs' \<and> c \<in> set cs' \<and>
      getValue M_delta_precip_pct c \<noteq> None" by blast
  have h0: "map (getValue M_delta_temp_c) example_cities = [None, None, None]"
    by (simp add: example_cities_def example_city_def)
  from h0 a h2 c b show ?thesis by (intro conjI)
qed

section \<open>Properties of the city payload\<close>

lemma replace_NaN_match:
  assumes "prefix ''NaN'' s"
  shows "replace_NaN s = ''null'' @ replace_NaN (drop 3 s)"
proof (cases s)
  case Nil
  with assms show ?thesis by simp
next
  case (Cons c cs)
  from assms have p: "prefix ''NaN'' (c # cs)" unfolding Cons .
  show ?thesis unfolding Cons by (subst replace_NaN.simps) (simp only: p if_True)
qed

lemma replace_NaN_skip:
  assumes "\<not> prefix ''NaN'' (c # cs)"
  shows "replace_NaN (c # cs) = c # replace_NaN cs"
  by (subst replace_NaN.simps) (simp only: assms if_False)

lemma replace_NaN_head:
  assumes "replace_NaN s = x # r" and "x \<noteq> CHR ''n''"
  shows "\<exists>cs. s = x # cs \<and> \<not> prefix ''NaN'' s \<and> r = replace_NaN cs"
proof (cases s)
  case Nil
  with assms(1) show ?thesis by (simp add: replace_NaN.simps)
next
  case (Cons c cs)
  show ?thesis
  proof (cases "prefix ''NaN'' s")
    case True
    from replace_NaN_match[OF True] assms show ?thesis by simp
  next
    case False
    with Cons assms(1) show ?thesis by (simp add: replace_NaN_skip)
  qed
qed

lemma replace_NaN_no_prefix: "\<not> prefix ''NaN'' (replace_NaN s)"
proof
  assume "prefix ''NaN'' (replace_NaN s)"
  then obtain r where r: "replace_NaN s = CHR ''N'' # CHR ''a'' # CHR ''N'' # r"
    by (auto simp: prefix_def)
  from replace_NaN_head[OF r] obtain cs1
    where 1: "s = CHR ''N'' # cs1" "\<not> prefix ''NaN'' s"
      "CHR ''a'' # CHR ''N'' # r = replace_NaN cs1" by auto
  from replace_NaN_head[OF 1(3)[symmetric]] obtain cs2
    where 2: "cs1 = CHR ''a'' # cs2" "CHR ''N'' # r = replace_NaN cs2" by auto
  from replace_NaN_head[OF 2(2)[symmetric]] obtain cs3
    where 3: "cs2 = CHR ''N'' # cs3" by auto
  from 1(1) 2(1) 3 have "prefix ''NaN'' s" by simp
  with 1(2) show False by simp
qed

lemma replace_NaN_no_NaN: "\<not> sublist ''NaN'' (replace_NaN s)"
proof (induction s rule: replace_NaN.induct)
  case 1
  show ?case by (simp add: replace_NaN.simps)
next
  case (2 c cs)
  show ?case
  proof (cases "prefix ''NaN'' (c # cs)")
    case True
    have "\<not> sublist ''NaN'' (replace_NaN (drop 3 (c # cs)))" using True by (rule "2.IH"(1))
    then have "\<not> sublist ''NaN'' (''null'' @ replace_NaN (drop 3 (c # cs)))"
      by (simp add: sublist_Cons_right)
    then show ?thesis unfolding replace_NaN_match[OF True] .
  next
    case False
    have "\<not> sublist ''NaN'' (replace_NaN cs)" using False by (rule "2.IH"(2))
    moreover have "\<not> prefix ''NaN'' (c # replace_NaN cs)"
      using replace_NaN_no_prefix[of "c # cs"] unfolding replace_NaN_skip[OF False] .
    ultimately show ?thesis
      unfolding replace_NaN_skip[OF False] by (simp only: sublist_Cons_right) simp
  qed
qed

lemma replace_NaN_unchanged: "\<not> sublist ''NaN'' s \<Longrightarrow> replace_NaN s = s"
proof (induction s)
  case Nil
  show ?case by (simp add: replace_NaN.simps)
next
  case (Cons c cs)
  from Cons.prems have "\<not> prefix ''NaN'' (c # cs)" "\<not> sublist ''NaN'' cs"
    by (simp_all add: sublist_Cons_right)
  then show ?case using Cons.IH by (simp add: replace_NaN_skip)
qed

lemma prefix_NaN_append:
  assumes "\<not> suffix ''Na'' a" and "a \<noteq> []"
  shows "prefix ''NaN'' (a @ ''NaN'' @ b) \<longleftrightarrow> prefix ''NaN'' a"
proof (cases a)
  case Nil
  with assms show ?thesis by simp
next
  case (Cons c cs)
  show ?thesis
  proof (cases cs)
    case Nil
    with Cons show ?thesis by auto
  next
    case (Cons d ds)
    show ?thesis
    proof (cases ds)
      case Nil
      with \<open>a = c # cs\<close> \<open>cs = d # ds\<close> assms(1) show ?thesis by (auto simp: suffix_def)
    next
      case (Cons e es)
      with \<open>a = c # cs\<close> \<open>cs = d # ds\<close> show ?thesis by simp
    qed
  qed
qed

lemma drop3_append:
  assumes "prefix ''NaN'' s"
  shows "drop 3 (s @ t) = drop 3 s @ t"
proof -
  from assms obtain r where "s = ''NaN'' @ r" by (auto simp: prefix_def)
  then show ?thesis by simp
qed

lemma suffix_Na_drop: "\<not> suffix ''Na'' a \<Longrightarrow> \<not> suffix ''Na'' (drop n a)"
proof
  assume n: "\<not> suffix ''Na'' a" and s: "suffix ''Na'' (drop n a)"
  have "suffix (drop n a) a" by (rule suffix_drop)
  with s have "suffix ''Na'' a" by (rule suffix_order.trans)
  with n show False ..
qed

lemma suffix_Na_tl: "\<not> suffix ''Na'' (c # cs) \<Longrightarrow> \<not> suffix ''Na'' cs"
proof
  assume n: "\<not> suffix ''Na'' (c # cs)" and s: "suffix ''Na'' cs"
  from s have "suffix ''Na'' (c # cs)" by (rule suffix_ConsI)
  with n show False ..
qed

lemma replace_NaN_token:
  "\<not> suffix ''Na'' a \<Longrightarrow>
   replace_NaN (a @ ''NaN'' @ b) = replace_NaN a @ ''null'' @ replace_NaN b"
proof (induction a rule: replace_NaN.induct)
  case 1
  have p: "prefix ''NaN'' (''NaN'' @ b)" by (rule prefixI) simp
  have "replace_NaN (''NaN'' @ b) = ''null'' @ replace_NaN (drop 3 (''NaN'' @ b))"
    using p by (rule replace_NaN_match)
  also have "drop 3 (''NaN'' @ b) = b" by simp
  finally show ?case by (simp add: replace_NaN.simps(1))
next
  case (2 c cs)
  show ?case
  proof (cases "prefix ''NaN'' (c # cs)")
    case True
    have ns: "\<not> suffix ''Na'' (drop 3 (c # cs))" using "2.prems" by (rule suffix_Na_drop)
    have "prefix ''NaN'' ((c # cs) @ ''NaN'' @ b)" using True by (rule prefix_prefix)
    then have "replace_NaN ((c # cs) @ ''NaN'' @ b) =
        ''null'' @ replace_NaN (drop 3 ((c # cs) @ ''NaN'' @ b))"
      by (rule replace_NaN_match)
    also have "\<dots> = ''null'' @ replace_NaN (drop 3 (c # cs) @ ''NaN'' @ b)"
      by (simp only: drop3_append[OF True])
    also have "\<dots> = ''null'' @ replace_NaN (drop 3 (c # cs)) @ ''null'' @ replace_NaN b"
      by (simp only: "2.IH"(1)[OF True ns])
    also have "\<dots> = replace_NaN (c # cs) @ ''null'' @ replace_NaN b"
      by (simp only: replace_NaN_match[OF True] append_assoc)
    finally show ?thesis .
  next
    case False
    define X where "X = ''NaN'' @ b"
    have ns: "\<not> suffix ''Na'' cs" using "2.prems" by (rule suffix_Na_tl)
    have ne: "c # cs \<noteq> []" by simp
    have iff: "prefix ''NaN'' ((c # cs) @ ''NaN'' @ b) \<longleftrightarrow> prefix ''NaN'' (c # cs)"
      using "2.prems" ne by (rule prefix_NaN_append)
    have "\<not> prefix ''NaN'' ((c # cs) @ X)"
      unfolding X_def iff by (rule False)
    then have "\<not> prefix ''NaN'' (c # (cs @ X))" by simp
    then have "replace_NaN (c # (cs @ X)) = c # replace_NaN (cs @ X)"
      by (rule replace_NaN_skip)
    also have "replace_NaN (cs @ X) = replace_NaN cs @ ''null'' @ replace_NaN b"
      unfolding X_def using False ns by (rule "2.IH"(2))
    finally have "replace_NaN ((c # cs) @ X) = (c # replace_NaN cs) @ ''null'' @ replace_NaN b"
      by simp
    then show ?thesis
      unfolding X_def replace_NaN_skip[OF False] .
  qed
qed

text \<open>
  Claim C9. The text that the city effect hands to \<^verbatim>\<open>JSON.parse\<close> is \<open>replace_NaN\<close> of the
  fetched text. It contains \<^verbatim>\<open>NaN\<close> nowhere. A token \<^verbatim>\<open>NaN\<close> that stands where a value is
  expected follows a colon, a bracket, a comma or white space, so the text before it does
  not end in \<^verbatim>\<open>Na\<close>: such a token becomes \<^verbatim>\<open>null\<close>, and the texts before and behind it are
  rewritten on their own. A text without \<^verbatim>\<open>NaN\<close> is handed on as it is.
\<close>

theorem replace_NaN_rewrites_every_token:
  "\<not> sublist ''NaN'' (replace_NaN txt) \<and>
   (\<not> suffix ''Na'' a \<longrightarrow>
      replace_NaN (a @ ''NaN'' @ b) = replace_NaN a @ ''null'' @ replace_NaN b) \<and>
   (\<not> sublist ''NaN'' txt \<longrightarrow> replace_NaN txt = txt)"
proof (intro conjI impI)
  show "\<not> sublist ''NaN'' (replace_NaN txt)" by (rule replace_NaN_no_NaN)
  show "replace_NaN (a @ ''NaN'' @ b) = replace_NaN a @ ''null'' @ replace_NaN b"
    if "\<not> suffix ''Na'' a" using that by (rule replace_NaN_token)
  show "replace_NaN txt = txt" if "\<not> sublist ''NaN'' txt"
    using that by (rule replace_NaN_unchanged)
qed

text \<open>C9 at an array with two such tokens.\<close>

theorem replace_NaN_rewrites_every_token_witness:
  "\<not> suffix ''Na'' ''[1, '' \<and> \<not> sublist ''NaN'' ''[1, '' \<and>
   replace_NaN ''[1, NaN, 2.5, NaN]'' = ''[1, null, 2.5, null]''"
proof -
  have h1: "\<not> suffix ''Na'' ''[1, ''" by (simp add: suffix_def)
  have h2: "\<not> sublist ''NaN'' ''[1, ''" by code_simp
  have h3: "\<not> suffix ''Na'' '', 2.5, ''" by (simp add: suffix_def)
  have h4: "\<not> sublist ''NaN'' '', 2.5, ''" by code_simp
  have h5: "\<not> sublist ''NaN'' '']''" by code_simp
  note t = replace_NaN_rewrites_every_token
  from t[of "''[1, ''"] h2 have a: "replace_NaN ''[1, '' = ''[1, ''" by blast
  from t[of "'', 2.5, ''"] h4 have b: "replace_NaN '', 2.5, '' = '', 2.5, ''" by blast
  from t[of "'']''"] h5 have c: "replace_NaN '']'' = '']''" by blast
  from t[of _ "'', 2.5, ''" "'']''"] h3
  have "replace_NaN ('', 2.5, '' @ ''NaN'' @ '']'') = replace_NaN '', 2.5, '' @ ''null'' @ replace_NaN '']''"
    by blast
  then have d: "replace_NaN '', 2.5, NaN]'' = '', 2.5, null]''" unfolding b c by simp
  from t[of _ "''[1, ''" "'', 2.5, NaN]''"] h1
  have "replace_NaN (''[1, '' @ ''NaN'' @ '', 2.5, NaN]'')
      = replace_NaN ''[1, '' @ ''null'' @ replace_NaN '', 2.5, NaN]''"
    by blast
  then have "replace_NaN ''[1, NaN, 2.5, NaN]'' = ''[1, null, 2.5, null]''"
    unfolding a d by simp
  with h1 h2 show ?thesis by (intro conjI)
qed

section \<open>Properties of the dataset cache\<close>

lemma fetchMonth_hit:
  "cache s (month_key idx) = Some data \<Longrightarrow> fetchMonth idx s = s\<lparr>climateData := Some data\<rparr>"
  by (simp add: fetchMonth_def Let_def)

lemma fetchMonth_miss:
  "cache s (month_key idx) = None \<Longrightarrow>
   fetchMonth idx s =
     s\<lparr>loading := True, pending := pending s @ [month_key idx],
       fetched := fetched s @ [month_key idx]\<rparr>"
  by (simp add: fetchMonth_def Let_def)

lemma one_in_flight_pending:
  assumes "one_in_flight s" "key \<in> set (pending s)"
  shows "pending s = [key] \<and> cache s key = None \<and> loading s"
proof -
  from assms have l: "loading s" by (auto simp: one_in_flight_def split: if_splits)
  with assms(1) have "length (pending s) = 1" "cache s (hd (pending s)) = None"
    by (simp_all add: one_in_flight_def)
  then obtain p where p: "pending s = [p]" "cache s p = None"
    by (cases "pending s") auto
  with assms(2) l show ?thesis by simp
qed

lemma step_balanced:
  assumes inv: "one_in_flight s" and bal: "balanced s key failures"
    and st: "step e s = Some s'"
  shows "one_in_flight s' \<and>
         balanced s' key (failures + (if e = FetchRejected key then 1 else 0))"
proof (cases e)
  case (MonthChange idx)
  with st have en: "\<not> loading s" and s': "s' = fetchMonth idx (s\<lparr>month := idx\<rparr>)"
    by (auto split: if_splits)
  from en inv have np: "pending s = []" by (simp add: one_in_flight_def)
  show ?thesis
  proof (cases "cache s (month_key idx)")
    case None
    then have "s' = s\<lparr>month := idx, loading := True, pending := pending s @ [month_key idx],
        fetched := fetched s @ [month_key idx]\<rparr>"
      unfolding s' by (simp add: fetchMonth_def Let_def)
    with None np bal MonthChange show ?thesis
      by (simp add: one_in_flight_def balanced_def cached_def)
  next
    case (Some data)
    then have "s' = s\<lparr>month := idx, climateData := Some data\<rparr>"
      unfolding s' by (simp add: fetchMonth_def Let_def)
    with en np bal MonthChange show ?thesis
      by (simp add: one_in_flight_def balanced_def cached_def)
  qed
next
  case (FetchResolved k data)
  with st have en: "k \<in> set (pending s)"
    and s': "s' = s\<lparr>cache := (cache s)(k \<mapsto> data), climateData := Some data,
                    loading := False, pending := remove1 k (pending s)\<rparr>"
    by (auto split: if_splits)
  from one_in_flight_pending[OF inv en] have p: "pending s = [k]" "cache s k = None" by simp_all
  with bal FetchResolved show ?thesis
    unfolding s' by (simp add: one_in_flight_def balanced_def cached_def)
next
  case (FetchRejected k)
  with st have en: "k \<in> set (pending s)"
    and s': "s' = s\<lparr>loading := False, pending := remove1 k (pending s)\<rparr>"
    by (auto split: if_splits)
  from one_in_flight_pending[OF inv en] have p: "pending s = [k]" "cache s k = None" by simp_all
  with bal FetchRejected show ?thesis
    unfolding s' by (auto simp: one_in_flight_def balanced_def cached_def)
qed

lemma run_balanced:
  "one_in_flight s \<Longrightarrow> balanced s key failures \<Longrightarrow> run es s = Some s' \<Longrightarrow>
   one_in_flight s' \<and> balanced s' key (failures + count_list es (FetchRejected key))"
proof (induction es arbitrary: s failures)
  case Nil
  then show ?case by simp
next
  case (Cons e es)
  from Cons.prems(3) obtain s1 where s1: "step e s = Some s1" "run es s1 = Some s'"
    by (auto split: option.splits)
  from step_balanced[OF Cons.prems(1) Cons.prems(2) s1(1)]
  have "one_in_flight s1"
    and "balanced s1 key (failures + (if e = FetchRejected key then 1 else 0))"
    by (rule conjunct1, rule conjunct2)
  from Cons.IH[OF this s1(2)]
  have "one_in_flight s'"
    and b: "balanced s' key (failures + (if e = FetchRejected key then 1 else 0)
              + count_list es (FetchRejected key))"
    by (rule conjunct1, rule conjunct2)
  have "failures + (if e = FetchRejected key then 1 else 0) + count_list es (FetchRejected key)
      = failures + count_list (e # es) (FetchRejected key)"
    by simp
  with b have "balanced s' key (failures + count_list (e # es) (FetchRejected key))"
    by (simp only:)
  with \<open>one_in_flight s'\<close> show ?case ..
qed

lemma balanced_bound:
  assumes "one_in_flight s" "balanced s key failures"
  shows "count_list (fetched s) key \<le> Suc failures"
proof (cases "key \<in> set (pending s)")
  case True
  from one_in_flight_pending[OF assms(1) True] assms(2) show ?thesis
    by (simp add: balanced_def cached_def)
next
  case False
  then have "count_list (pending s) key = 0" by simp
  with assms(2) show ?thesis by (simp add: balanced_def cached_def)
qed

lemma mounted_state_eq:
  "mounted_state =
     \<lparr>month = 6, climateData = None, loading = True, cache = Map.empty,
      pending = [''jul''], fetched = [''jul'']\<rparr>"
  by (simp add: mounted_state_def initial_state_def fetchMonth_def Let_def month_key_def MONTH_KEYS_def)

lemma mounted_balanced: "one_in_flight mounted_state \<and> balanced mounted_state key 0"
  unfolding mounted_state_eq by (simp add: one_in_flight_def balanced_def cached_def)

lemma step_cached_no_fetch:
  assumes hit: "cache s key \<noteq> None" and st: "step e s = Some s'"
  shows "cache s' key \<noteq> None \<and> count_list (fetched s') key = count_list (fetched s) key"
proof (cases e)
  case (MonthChange idx)
  with st have s': "s' = fetchMonth idx (s\<lparr>month := idx\<rparr>)"
    by (auto split: if_splits)
  show ?thesis
  proof (cases "cache s (month_key idx)")
    case None
    with hit have "month_key idx \<noteq> key" by auto
    with None hit show ?thesis unfolding s' by (simp add: fetchMonth_def Let_def)
  next
    case (Some data)
    with hit show ?thesis unfolding s' by (simp add: fetchMonth_def Let_def)
  qed
next
  case (FetchResolved k data)
  with st hit show ?thesis by (auto split: if_splits)
next
  case (FetchRejected k)
  with st hit show ?thesis by (auto split: if_splits)
qed

lemma run_cached_no_fetch:
  "cache s key \<noteq> None \<Longrightarrow> run es s = Some s' \<Longrightarrow>
   cache s' key \<noteq> None \<and> count_list (fetched s') key = count_list (fetched s) key"
proof (induction es arbitrary: s)
  case Nil
  then show ?case by simp
next
  case (Cons e es)
  from Cons.prems(2) obtain s1 where s1: "step e s = Some s1" "run es s1 = Some s'"
    by (auto split: option.splits)
  from step_cached_no_fetch[OF Cons.prems(1) s1(1)]
  have c: "cache s1 key \<noteq> None" and n: "count_list (fetched s1) key = count_list (fetched s) key"
    by (rule conjunct1, rule conjunct2)
  from Cons.IH[OF c s1(2)] n show ?case by simp
qed

text \<open>
  Claim C4, as amended. A request for a month whose dataset is cached sets the displayed
  data to the cached dataset and does nothing else: it issues no fetch, leaves nothing in
  flight and does not touch \<^verbatim>\<open>loading\<close>. In every session the number of fetches issued for
  a key is at most one more than the number of fetches for that key that failed; with no
  failed fetch it is at most one. Once a key is cached it stays cached, and whatever
  happens afterwards issues no fetch for it.
\<close>

theorem fetch_once_unless_failed:
  "(cache s (month_key idx) = Some data \<longrightarrow>
      fetchMonth idx s = s\<lparr>climateData := Some data\<rparr> \<and>
      fetched (fetchMonth idx s) = fetched s \<and>
      pending (fetchMonth idx s) = pending s \<and>
      loading (fetchMonth idx s) = loading s) \<and>
   (run es mounted_state = Some s' \<longrightarrow>
      count_list (fetched s') key \<le> Suc (count_list es (FetchRejected key))) \<and>
   (cache s key \<noteq> None \<and> run es s = Some s'' \<longrightarrow>
      cache s'' key \<noteq> None \<and> count_list (fetched s'') key = count_list (fetched s) key)"
proof (intro conjI impI)
  assume "cache s (month_key idx) = Some data"
  then have eq: "fetchMonth idx s = s\<lparr>climateData := Some data\<rparr>" by (rule fetchMonth_hit)
  then show "fetchMonth idx s = s\<lparr>climateData := Some data\<rparr>"
    "fetched (fetchMonth idx s) = fetched s"
    "pending (fetchMonth idx s) = pending s"
    "loading (fetchMonth idx s) = loading s"
    by simp_all
next
  assume r: "run es mounted_state = Some s'"
  from mounted_balanced[of key] have "one_in_flight mounted_state"
    and "balanced mounted_state key 0"
    by (rule conjunct1, rule conjunct2)
  from run_balanced[OF this r]
  have "one_in_flight s'" and "balanced s' key (0 + count_list es (FetchRejected key))"
    by (rule conjunct1, rule conjunct2)
  then have "one_in_flight s'" "balanced s' key (count_list es (FetchRejected key))"
    by simp_all
  then show "count_list (fetched s') key \<le> Suc (count_list es (FetchRejected key))"
    by (rule balanced_bound)
next
  assume a: "cache s key \<noteq> None \<and> run es s = Some s''"
  then have "cache s key \<noteq> None" and "run es s = Some s''" by simp_all
  then have "cache s'' key \<noteq> None \<and> count_list (fetched s'') key = count_list (fetched s) key"
    by (rule run_cached_no_fetch)
  then show "cache s'' key \<noteq> None"
    and "count_list (fetched s'') key = count_list (fetched s) key" by simp_all
qed

lemma example_run: "run example_session mounted_state = Some example_state"
  unfolding mounted_state_eq example_session_def example_state_def
  by (simp add: fetchMonth_def Let_def month_key_def MONTH_KEYS_def)

lemma example_run_tail:
  "run (tl example_session) example_state_jul = Some example_state"
  unfolding example_session_def example_state_def example_state_jul_def
  by (simp add: fetchMonth_def Let_def month_key_def MONTH_KEYS_def)

text \<open>C4 at the example session: July and June are fetched once each, and the return to
  July is served from the cache.\<close>

theorem fetch_once_unless_failed_witness:
  "cache example_state (month_key 6) = Some 7 \<and>
   fetchMonth 6 example_state = example_state\<lparr>climateData := Some 7\<rparr> \<and>
   fetched (fetchMonth 6 example_state) = [''jul'', ''jun''] \<and>
   run example_session mounted_state = Some example_state \<and>
   count_list (fetched example_state) ''jul''
     \<le> Suc (count_list example_session (FetchRejected ''jul'')) \<and>
   cache example_state_jul ''jul'' \<noteq> None \<and>
   run (tl example_session) example_state_jul = Some example_state \<and>
   count_list (fetched example_state) ''jul'' = count_list (fetched example_state_jul) ''jul''"
proof -
  have h1: "cache example_state (month_key 6) = Some 7"
    by (simp add: example_state_def month_key_def MONTH_KEYS_def)
  have h2: "cache example_state_jul ''jul'' \<noteq> None"
    by (simp add: example_state_jul_def)
  note t = fetch_once_unless_failed[where s = example_state and idx = 6 and data = 7
      and es = example_session and s' = example_state and key = "''jul''"]
  note u = fetch_once_unless_failed[where s = example_state_jul and es = "tl example_session"
      and s'' = example_state and key = "''jul''"]
  from t h1 have a: "fetchMonth 6 example_state = example_state\<lparr>climateData := Some 7\<rparr>"
    and b: "fetched (fetchMonth 6 example_state) = fetched example_state" by blast+
  from b have b': "fetched (fetchMonth 6 example_state) = [''jul'', ''jun'']"
    by (simp add: example_state_def)
  from t example_run have c: "count_list (fetched example_state) ''jul''
     \<le> Suc (count_list example_session (FetchRejected ''jul''))" by blast
  from u h2 example_run_tail
  have d: "count_list (fetched example_state) ''jul'' = count_list (fetched example_state_jul) ''jul''"
    by blast
  from h1 a b' example_run c h2 example_run_tail d show ?thesis by (intro conjI)
qed

text \<open>
  C4 as it is stated, at most one fetch for every key, fails when a fetch fails: a failed
  fetch fills no cache entry, so after the fetch for July has failed and the user has
  been to June, coming back to July fetches it a second time.
\<close>

theorem fetch_after_failure_counterexample:
  "map_option fetched
     (run [FetchRejected ''jul'', MonthChange 5, FetchResolved ''jun'' (6 :: nat), MonthChange 6]
        mounted_state)
   = Some [''jul'', ''jun'', ''jul''] \<and>
   count_list [''jul'', ''jun'', ''jul''] ''jul'' = 2"
  unfolding mounted_state_eq
  by (simp add: fetchMonth_def Let_def month_key_def MONTH_KEYS_def)

end
